theory Spec2Isabelle
  imports Main "HOL-Library.Word" "HOL-Library.Monad_Syntax"
begin

unbundle bit_operations_syntax

section \<open>The block cache of a2retronet (block\_cache.c, diskio.c)\<close>

subsection \<open>Types and constants\<close>

text \<open>
  \<open>BYTE\<close> is FatFs's 8-bit unsigned type. \<open>LBA_t\<close> is 32 or 64 bits wide, depending
  on \<open>FF_LBA64\<close>; it is modelled as a 64-bit word, a 32-bit build being the case where
  the upper half of every sector number is zero. \<open>DRESULT\<close> is the result enumeration of
  FatFs's diskio.h (its first member, \<open>RES_OK\<close>, is the value 0 that the hit paths
  return).
\<close>

type_synonym BYTE = "8 word"
type_synonym LBA_t = "64 word"
type_synonym block = "8 word list"

datatype DRESULT = RES_OK | RES_ERROR | RES_WRPRT | RES_NOTRDY | RES_PARERR

definition BLOCK_SIZE :: nat where "BLOCK_SIZE = 512"
definition CACHE_SIZE :: nat where "CACHE_SIZE = 128"
definition HASH_SIZE :: nat where "HASH_SIZE = 257"

definition DEV_SD :: BYTE where "DEV_SD = 0"
definition DEV_USB :: BYTE where "DEV_USB = 1"

text \<open>
  A \<open>cache_entry *\<close> always points into \<open>s_cache\<close> or is \<open>NULL\<close>: it is modelled
  as an optional index of the pool.
\<close>

record cache_entry =
  sector :: LBA_t
  pdrv :: BYTE
  dirty :: bool
  valid :: bool
  hash_next :: "nat option"
  lru_prev :: "nat option"
  lru_next :: "nat option"
  data :: block

text \<open>
  Calls of \<open>disk_read_no_cache\<close> and \<open>disk_write_no_cache\<close> are recorded in a log,
  which the program does not have: it is there to count device accesses.
\<close>

datatype io_event =
  DevRead BYTE LBA_t DRESULT
  | DevWrite BYTE LBA_t block DRESULT

text \<open>
  The static variables of block\_cache.c, the state \<open>dev\<close> of the storage devices
  behind the drivers, and the log.
\<close>

record 'd state =
  s_cache :: "nat \<Rightarrow> cache_entry"
  s_hash_table :: "nat \<Rightarrow> nat option"
  s_dirty_blocks :: bool
  s_lru_head :: "nat option"
  s_lru_tail :: "nat option"
  s_free_head :: "nat option"
  s_evict_error :: DRESULT
  dev :: 'd
  io_log :: "io_event list"

text \<open>
  The SD and USB drivers (glue.h, usb\_diskio.h) are outside the repository's sources:
  they are parameters. A read gets the buffer it is to fill and returns the buffer as
  it left it. \<open>medium_usb\<close> is the compile-time condition \<open>MEDIUM == USB\<close>.
\<close>

record 'd drivers =
  medium_usb :: bool
  sd_disk_read :: "'d \<Rightarrow> BYTE \<Rightarrow> block \<Rightarrow> LBA_t \<Rightarrow> nat \<Rightarrow> DRESULT \<times> block \<times> 'd"
  usb_disk_read :: "'d \<Rightarrow> BYTE \<Rightarrow> block \<Rightarrow> LBA_t \<Rightarrow> nat \<Rightarrow> DRESULT \<times> block \<times> 'd"
  sd_disk_write :: "'d \<Rightarrow> BYTE \<Rightarrow> block \<Rightarrow> LBA_t \<Rightarrow> nat \<Rightarrow> DRESULT \<times> 'd"
  usb_disk_write :: "'d \<Rightarrow> BYTE \<Rightarrow> block \<Rightarrow> LBA_t \<Rightarrow> nat \<Rightarrow> DRESULT \<times> 'd"

subsection \<open>diskio.c: the uncached device functions\<close>

definition disk_read_no_cache ::
  "'d drivers \<Rightarrow> 'd \<Rightarrow> BYTE \<Rightarrow> block \<Rightarrow> LBA_t \<Rightarrow> nat \<Rightarrow> DRESULT \<times> block \<times> 'd" where
  "disk_read_no_cache D d pd buff sec count =
     (if pd = DEV_SD then sd_disk_read D d DEV_SD buff sec count
      else if medium_usb D \<and> pd = DEV_USB then usb_disk_read D d DEV_USB buff sec count
      else (RES_PARERR, buff, d))"

definition disk_write_no_cache ::
  "'d drivers \<Rightarrow> 'd \<Rightarrow> BYTE \<Rightarrow> block \<Rightarrow> LBA_t \<Rightarrow> nat \<Rightarrow> DRESULT \<times> 'd" where
  "disk_write_no_cache D d pd buff sec count =
     (if pd = DEV_SD then sd_disk_write D d DEV_SD buff sec count
      else if medium_usb D \<and> pd = DEV_USB then usb_disk_write D d DEV_USB buff sec count
      else (RES_PARERR, d))"

subsection \<open>block\_cache.c: helpers of the model\<close>

text \<open>\<open>memcpy(dst, src, BLOCK_SIZE)\<close> on buffers of at least \<open>BLOCK_SIZE\<close> bytes.\<close>

definition memcpy :: "block \<Rightarrow> block \<Rightarrow> block" where
  "memcpy dst src = take BLOCK_SIZE src @ drop BLOCK_SIZE dst"

text \<open>An assignment to fields of \<open>s_cache[i]\<close>.\<close>

definition upd :: "nat \<Rightarrow> (cache_entry \<Rightarrow> cache_entry) \<Rightarrow> 'd state \<Rightarrow> 'd state" where
  "upd i f s = s\<lparr>s_cache := (s_cache s)(i := f (s_cache s i))\<rparr>"

definition zero_entry :: cache_entry where
  "zero_entry = \<lparr>sector = 0, pdrv = 0, dirty = False, valid = False, hash_next = None,
     lru_prev = None, lru_next = None, data = replicate BLOCK_SIZE 0\<rparr>"

text \<open>The state that C's static initialisation gives, over a device state \<open>d\<close>.\<close>

definition boot :: "'d \<Rightarrow> 'd state" where
  "boot d = \<lparr>s_cache = (\<lambda>_. zero_entry), s_hash_table = (\<lambda>_. None), s_dirty_blocks = True,
     s_lru_head = None, s_lru_tail = None, s_free_head = None, s_evict_error = RES_OK,
     dev = d, io_log = []\<rparr>"

definition dev_read :: "'d drivers \<Rightarrow> BYTE \<Rightarrow> nat \<Rightarrow> LBA_t \<Rightarrow> 'd state \<Rightarrow> DRESULT \<times> 'd state" where
  "dev_read D pd i sec s =
     (case disk_read_no_cache D (dev s) pd (data (s_cache s i)) sec 1 of
        (r, b, d') \<Rightarrow>
          (r, (upd i (\<lambda>c. c\<lparr>data := b\<rparr>) s)\<lparr>dev := d', io_log := io_log s @ [DevRead pd sec r]\<rparr>))"

definition dev_write :: "'d drivers \<Rightarrow> nat \<Rightarrow> 'd state \<Rightarrow> DRESULT \<times> 'd state" where
  "dev_write D i s =
     (case disk_write_no_cache D (dev s) (pdrv (s_cache s i)) (data (s_cache s i))
             (sector (s_cache s i)) 1 of
        (r, d') \<Rightarrow>
          (r, s\<lparr>dev := d', io_log := io_log s @
                 [DevWrite (pdrv (s_cache s i)) (sector (s_cache s i)) (data (s_cache s i)) r]\<rparr>))"

subsection \<open>LRU functions\<close>

definition lru_remove :: "nat \<Rightarrow> 'd state \<Rightarrow> 'd state" where
  "lru_remove e s =
     (let s1 = (case lru_prev (s_cache s e) of
                  Some p \<Rightarrow> upd p (\<lambda>c. c\<lparr>lru_next := lru_next (s_cache s e)\<rparr>) s
                | None \<Rightarrow> s);
          s2 = (case lru_next (s_cache s1 e) of
                  Some n \<Rightarrow> upd n (\<lambda>c. c\<lparr>lru_prev := lru_prev (s_cache s1 e)\<rparr>) s1
                | None \<Rightarrow> s1);
          s3 = (if s_lru_head s2 = Some e then s2\<lparr>s_lru_head := lru_next (s_cache s2 e)\<rparr> else s2);
          s4 = (if s_lru_tail s3 = Some e then s3\<lparr>s_lru_tail := lru_prev (s_cache s3 e)\<rparr> else s3)
      in upd e (\<lambda>c. c\<lparr>lru_prev := None, lru_next := None\<rparr>) s4)"

definition lru_insert_front :: "nat \<Rightarrow> 'd state \<Rightarrow> 'd state" where
  "lru_insert_front e s =
     (let s1 = upd e (\<lambda>c. c\<lparr>lru_next := s_lru_head s, lru_prev := None\<rparr>) s;
          s2 = (case s_lru_head s1 of
                  Some h \<Rightarrow> upd h (\<lambda>c. c\<lparr>lru_prev := Some e\<rparr>) s1
                | None \<Rightarrow> s1);
          s3 = s2\<lparr>s_lru_head := Some e\<rparr>
      in if s_lru_tail s3 = None then s3\<lparr>s_lru_tail := Some e\<rparr> else s3)"

definition lru_touch :: "nat \<Rightarrow> 'd state \<Rightarrow> 'd state" where
  "lru_touch e s = (if s_lru_head s = Some e then s else lru_insert_front e (lru_remove e s))"

subsection \<open>Free list\<close>

definition free_get :: "'d state \<Rightarrow> nat option \<times> 'd state" where
  "free_get s =
     (case s_free_head s of
        None \<Rightarrow> (None, s)
      | Some r \<Rightarrow> (Some r, s\<lparr>s_free_head := hash_next (s_cache s r)\<rparr>))"

definition free_insert :: "nat \<Rightarrow> 'd state \<Rightarrow> 'd state" where
  "free_insert e s =
     (upd e (\<lambda>c. c\<lparr>valid := False, hash_next := s_free_head s\<rparr>) s)\<lparr>s_free_head := Some e\<rparr>"

subsection \<open>Hash table\<close>

text \<open>
  \<open>sizeof(BYTE)\<close> is 1, so the drive number is shifted by 31 bits; all arithmetic is
  that of \<open>uint32_t\<close>. With a 32-bit \<open>LBA_t\<close> the upper half of the sector is zero and
  the value is that of the \<open>#else\<close> branch.
\<close>

definition hash_key :: "BYTE \<Rightarrow> LBA_t \<Rightarrow> nat" where
  "hash_key pd sec =
     (let v = (ucast (sec AND 0xFFFFFFFF) :: 32 word) XOR ucast (drop_bit 32 sec)
                XOR push_bit 31 (ucast pd)
      in unat ((v * 2654435761) mod word_of_nat HASH_SIZE))"

partial_function (option) hash_lookup_loop ::
  "'d state \<Rightarrow> BYTE \<Rightarrow> LBA_t \<Rightarrow> nat option \<Rightarrow> nat option option" where
  "hash_lookup_loop s pd sec e =
     (case e of
        None \<Rightarrow> Some None
      | Some i \<Rightarrow>
          if valid (s_cache s i) \<and> sector (s_cache s i) = sec \<and> pdrv (s_cache s i) = pd
          then Some (Some i)
          else hash_lookup_loop s pd sec (hash_next (s_cache s i)))"

definition hash_lookup :: "BYTE \<Rightarrow> LBA_t \<Rightarrow> 'd state \<Rightarrow> nat option option" where
  "hash_lookup pd sec s = hash_lookup_loop s pd sec (s_hash_table s (hash_key pd sec))"

definition hash_insert :: "nat \<Rightarrow> 'd state \<Rightarrow> 'd state" where
  "hash_insert e s =
     (let h = hash_key (pdrv (s_cache s e)) (sector (s_cache s e));
          s1 = upd e (\<lambda>c. c\<lparr>hash_next := s_hash_table s h\<rparr>) s
      in s1\<lparr>s_hash_table := (s_hash_table s1)(h := Some e)\<rparr>)"

text \<open>
  \<open>pp\<close> in \<open>hash_remove\<close> points to a bucket of the table or to the \<open>hash_next\<close>
  field of an entry.
\<close>

datatype link = Bucket nat | Next nat

definition deref :: "'d state \<Rightarrow> link \<Rightarrow> nat option" where
  "deref s pp = (case pp of Bucket h \<Rightarrow> s_hash_table s h | Next i \<Rightarrow> hash_next (s_cache s i))"

definition assign :: "link \<Rightarrow> nat option \<Rightarrow> 'd state \<Rightarrow> 'd state" where
  "assign pp v s =
     (case pp of
        Bucket h \<Rightarrow> s\<lparr>s_hash_table := (s_hash_table s)(h := v)\<rparr>
      | Next i \<Rightarrow> upd i (\<lambda>c. c\<lparr>hash_next := v\<rparr>) s)"

partial_function (option) hash_remove_loop :: "nat \<Rightarrow> link \<Rightarrow> 'd state \<Rightarrow> 'd state option" where
  "hash_remove_loop e pp s =
     (case deref s pp of
        None \<Rightarrow> Some s
      | Some i \<Rightarrow>
          if i = e
          then (let s1 = assign pp (hash_next (s_cache s e)) s
                in Some (upd e (\<lambda>c. c\<lparr>hash_next := None\<rparr>) s1))
          else hash_remove_loop e (Next i) s)"

definition hash_remove :: "nat \<Rightarrow> 'd state \<Rightarrow> 'd state option" where
  "hash_remove e s =
     hash_remove_loop e (Bucket (hash_key (pdrv (s_cache s e)) (sector (s_cache s e)))) s"

subsection \<open>Cache functions\<close>

text \<open>The part of \<open>evict_entry\<close> after the write-back: "Remove from cache".\<close>

definition reclaim :: "nat \<Rightarrow> 'd state \<Rightarrow> (nat option \<times> 'd state) option" where
  "reclaim e s =
     do {
       s1 \<leftarrow> hash_remove e s;
       let s2 = lru_remove e s1;
       Some (Some e, upd e (\<lambda>c. c\<lparr>valid := False, dirty := False\<rparr>) s2)
     }"

definition evict_entry :: "'d drivers \<Rightarrow> 'd state \<Rightarrow> (nat option \<times> 'd state) option" where
  "evict_entry D s =
     (case s_lru_tail s of
        None \<Rightarrow> Some (None, s\<lparr>s_evict_error := RES_PARERR\<rparr>)
      | Some e \<Rightarrow>
          if valid (s_cache s e) \<and> dirty (s_cache s e)
          then (case dev_write D e s of
                  (r, s') \<Rightarrow>
                    (let s1 = s'\<lparr>s_evict_error := r\<rparr>
                     in if s_evict_error s1 \<noteq> RES_OK then Some (None, s1) else reclaim e s1))
          else reclaim e s)"

definition block_cache_init :: "'d state \<Rightarrow> 'd state" where
  "block_cache_init s =
     (let s1 = s\<lparr>s_cache := (\<lambda>i. if i < CACHE_SIZE then zero_entry else s_cache s i)\<rparr>;
          s2 = s1\<lparr>s_hash_table := (\<lambda>h. if h < HASH_SIZE then None else s_hash_table s1 h)\<rparr>;
          s3 = s2\<lparr>s_lru_head := None, s_lru_tail := None\<rparr>
      in fold (\<lambda>i t. if \<not> valid (s_cache t i) then free_insert i t else t) [0..<CACHE_SIZE] s3)"

text \<open>
  The slot for a miss: from the free list, else by eviction. Both public functions
  have this code.
\<close>

definition get_entry :: "'d drivers \<Rightarrow> 'd state \<Rightarrow> (nat option \<times> 'd state) option" where
  "get_entry D s =
     (case free_get s of
        (Some f, s1) \<Rightarrow> Some (Some f, s1)
      | (None, s1) \<Rightarrow> evict_entry D s1)"

definition block_cache_read_block ::
  "'d drivers \<Rightarrow> BYTE \<Rightarrow> LBA_t \<Rightarrow> block option \<Rightarrow> 'd state \<Rightarrow>
     (DRESULT \<times> block option \<times> 'd state) option" where
  "block_cache_read_block D pd sec out_data s =
     do {
       e \<leftarrow> hash_lookup pd sec s;
       case e of
         Some i \<Rightarrow>
           (let s1 = lru_touch i s
            in Some (RES_OK, map_option (\<lambda>out. memcpy out (data (s_cache s1 i))) out_data, s1))
       | None \<Rightarrow>
           do {
             (free_entry, s1) \<leftarrow> get_entry D s;
             case free_entry of
               None \<Rightarrow> Some (s_evict_error s1, out_data, s1)
             | Some f \<Rightarrow>
                 (case dev_read D pd f sec s1 of
                    (result, s2) \<Rightarrow>
                      if result \<noteq> RES_OK then Some (result, out_data, s2)
                      else
                        (let s3 = upd f (\<lambda>c. c\<lparr>sector := sec, pdrv := pd, dirty := False,
                                                 valid := True\<rparr>) s2;
                             s4 = hash_insert f s3;
                             s5 = lru_insert_front f s4
                         in Some (RES_OK,
                                  map_option (\<lambda>out. memcpy out (data (s_cache s5 f))) out_data,
                                  s5)))
           }
     }"

definition block_cache_write_block ::
  "'d drivers \<Rightarrow> BYTE \<Rightarrow> LBA_t \<Rightarrow> block \<Rightarrow> 'd state \<Rightarrow> (DRESULT \<times> 'd state) option" where
  "block_cache_write_block D pd sec in_data s =
     do {
       e \<leftarrow> hash_lookup pd sec s;
       case e of
         Some i \<Rightarrow>
           (let s1 = upd i (\<lambda>c. c\<lparr>data := memcpy (data c) in_data, dirty := True\<rparr>) s;
                s2 = s1\<lparr>s_dirty_blocks := True\<rparr>
            in Some (RES_OK, lru_touch i s2))
       | None \<Rightarrow>
           do {
             (free_entry, s1) \<leftarrow> get_entry D s;
             case free_entry of
               None \<Rightarrow> Some (s_evict_error s1, s1)
             | Some f \<Rightarrow>
                 (let s2 = upd f (\<lambda>c. c\<lparr>data := memcpy (data c) in_data, sector := sec,
                                          pdrv := pd, dirty := True, valid := True\<rparr>) s1;
                      s3 = s2\<lparr>s_dirty_blocks := True\<rparr>;
                      s4 = hash_insert f s3
                  in Some (RES_OK, lru_insert_front f s4))
           }
     }"

text \<open>The body of the \<open>for\<close> loop of \<open>block_cache_flush\<close>, over the indices left.\<close>

fun flush_loop :: "'d drivers \<Rightarrow> bool \<Rightarrow> bool \<Rightarrow> nat list \<Rightarrow> 'd state \<Rightarrow> DRESULT \<times> 'd state" where
  "flush_loop D flush_all invalidate_all [] s = (RES_OK, s\<lparr>s_dirty_blocks := False\<rparr>)"
| "flush_loop D flush_all invalidate_all (i # is) s =
     (if valid (s_cache s i) \<and> dirty (s_cache s i)
      then (case dev_write D i s of
              (result, s1) \<Rightarrow>
                if result \<noteq> RES_OK then (result, s1)
                else
                  (let s2 = upd i (\<lambda>c. c\<lparr>dirty := False\<rparr>) s1
                   in if \<not> flush_all then (RES_OK, s2)
                      else flush_loop D flush_all invalidate_all is
                             (if invalidate_all then upd i (\<lambda>c. c\<lparr>valid := False\<rparr>) s2 else s2)))
      else flush_loop D flush_all invalidate_all is
             (if invalidate_all then upd i (\<lambda>c. c\<lparr>valid := False\<rparr>) s else s))"

definition block_cache_flush :: "'d drivers \<Rightarrow> bool \<Rightarrow> bool \<Rightarrow> 'd state \<Rightarrow> DRESULT \<times> 'd state" where
  "block_cache_flush D flush_all invalidate_all s =
     (if \<not> s_dirty_blocks s then (RES_OK, s)
      else flush_loop D flush_all invalidate_all [0..<CACHE_SIZE] s)"

subsection \<open>Sequences of calls of the public functions\<close>

datatype op =
  Init
  | Read BYTE LBA_t "block option"
  | Write BYTE LBA_t block
  | Flush bool bool

fun exec :: "'d drivers \<Rightarrow> op \<Rightarrow> 'd state \<Rightarrow> 'd state option" where
  "exec D Init s = Some (block_cache_init s)"
| "exec D (Read pd sec out_data) s =
     map_option (\<lambda>(r, out, s'). s') (block_cache_read_block D pd sec out_data s)"
| "exec D (Write pd sec in_data) s =
     map_option snd (block_cache_write_block D pd sec in_data s)"
| "exec D (Flush flush_all invalidate_all) s =
     Some (snd (block_cache_flush D flush_all invalidate_all s))"

fun run :: "'d drivers \<Rightarrow> op list \<Rightarrow> 'd state \<Rightarrow> 'd state option" where
  "run D [] s = Some s"
| "run D (x # xs) s = (case exec D x s of None \<Rightarrow> None | Some s' \<Rightarrow> run D xs s')"

section \<open>Predicates of the verification\<close>

primrec seg :: "(nat \<Rightarrow> nat option) \<Rightarrow> nat option \<Rightarrow> nat list \<Rightarrow> nat option \<Rightarrow> bool" where
  "seg nx p [] q = (p = q)"
| "seg nx p (x # xs) q = (p = Some x \<and> seg nx (nx x) xs q)"

definition HN :: "'d state \<Rightarrow> nat \<Rightarrow> nat option" where "HN s = (\<lambda>i. hash_next (s_cache s i))"

definition LN :: "'d state \<Rightarrow> nat \<Rightarrow> nat option" where "LN s = (\<lambda>i. lru_next (s_cache s i))"

definition LP :: "'d state \<Rightarrow> nat \<Rightarrow> nat option" where "LP s = (\<lambda>i. lru_prev (s_cache s i))"

definition hk :: "'d state \<Rightarrow> nat \<Rightarrow> nat" where
  "hk s i = hash_key (pdrv (s_cache s i)) (sector (s_cache s i))"

definition matches :: "'d state \<Rightarrow> BYTE \<Rightarrow> LBA_t \<Rightarrow> nat \<Rightarrow> bool" where
  "matches s pd sec i = (valid (s_cache s i) \<and> sector (s_cache s i) = sec \<and> pdrv (s_cache s i) = pd)"

definition lru_ok :: "'d state \<Rightarrow> nat list \<Rightarrow> bool" where
  "lru_ok s lru = (seg (LN s) (s_lru_head s) lru None \<and> seg (LP s) (s_lru_tail s) (rev lru) None
     \<and> distinct lru)"

text \<open>What the LRU functions leave alone.\<close>

definition lru_only :: "'d state \<Rightarrow> 'd state \<Rightarrow> bool" where
  "lru_only s s' =
     (s_hash_table s' = s_hash_table s \<and> s_dirty_blocks s' = s_dirty_blocks s \<and>
      s_free_head s' = s_free_head s \<and> s_evict_error s' = s_evict_error s \<and>
      dev s' = dev s \<and> io_log s' = io_log s \<and>
      (\<forall>i. hash_next (s_cache s' i) = hash_next (s_cache s i) \<and>
           valid (s_cache s' i) = valid (s_cache s i) \<and>
           dirty (s_cache s' i) = dirty (s_cache s i) \<and>
           sector (s_cache s' i) = sector (s_cache s i) \<and>
           pdrv (s_cache s' i) = pdrv (s_cache s i) \<and>
           data (s_cache s' i) = data (s_cache s i)))"

definition hash_ok :: "'d state \<Rightarrow> (nat \<Rightarrow> nat list) \<Rightarrow> bool" where
  "hash_ok s ch =
     ((\<forall>h<HASH_SIZE. seg (HN s) (s_hash_table s h) (ch h) None \<and> distinct (ch h) \<and>
          (\<forall>i\<in>set (ch h). hk s i = h)) \<and>
      (\<forall>h. HASH_SIZE \<le> h \<longrightarrow> ch h = []))"

text \<open>The state after \<open>hash_remove\<close> of an entry that is in its chain.\<close>

definition unlinked :: "nat list \<Rightarrow> nat \<Rightarrow> 'd state \<Rightarrow> 'd state" where
  "unlinked as e s =
     upd e (\<lambda>c. c\<lparr>hash_next := None\<rparr>)
       (assign (if as = [] then Bucket (hk s e) else Next (last as)) (hash_next (s_cache s e)) s)"

definition free_ok :: "nat option \<Rightarrow> 'd state \<Rightarrow> nat list \<Rightarrow> bool" where
  "free_ok q s fl = (seg (HN s) (s_free_head s) fl q \<and> distinct fl)"

definition link_ok :: "(nat \<Rightarrow> nat list) \<Rightarrow> nat list \<Rightarrow> nat list \<Rightarrow> bool" where
  "link_ok ch lru fl =
     ((\<forall>i. i \<in> set lru \<longleftrightarrow> (\<exists>h. i \<in> set (ch h))) \<and> (\<forall>i\<in>set lru. i < CACHE_SIZE) \<and>
      (\<forall>i\<in>set fl. i < CACHE_SIZE \<and> i \<notin> set lru))"

definition vd_ok :: "'d state \<Rightarrow> nat list \<Rightarrow> nat list \<Rightarrow> bool" where
  "vd_ok s lru fl =
     ((\<forall>i\<in>set fl. \<not> valid (s_cache s i)) \<and>
      (\<forall>i<CACHE_SIZE. valid (s_cache s i) \<longrightarrow> i \<in> set lru) \<and>
      (\<forall>i<CACHE_SIZE. dirty (s_cache s i) \<longrightarrow> valid (s_cache s i)))"

definition flag_ok :: "'d state \<Rightarrow> bool" where
  "flag_ok s =
     (\<not> s_dirty_blocks s \<longrightarrow> (\<forall>i<CACHE_SIZE. \<not> (valid (s_cache s i) \<and> dirty (s_cache s i))))"

definition uniq :: "'d state \<Rightarrow> bool" where
  "uniq s =
     (\<forall>i<CACHE_SIZE. \<forall>j<CACHE_SIZE.
        valid (s_cache s i) \<and> valid (s_cache s j) \<and> pdrv (s_cache s i) = pdrv (s_cache s j) \<and>
        sector (s_cache s i) = sector (s_cache s j) \<longrightarrow> i = j)"

definition ginv :: "nat option \<Rightarrow> 'd state \<Rightarrow> (nat \<Rightarrow> nat list) \<Rightarrow> nat list \<Rightarrow> nat list \<Rightarrow> bool" where
  "ginv q s ch lru fl =
     (hash_ok s ch \<and> lru_ok s lru \<and> free_ok q s fl \<and> link_ok ch lru fl \<and> vd_ok s lru fl \<and>
      flag_ok s \<and> uniq s)"

definition cache_inv :: "'d state \<Rightarrow> bool" where
  "cache_inv s = (\<exists>ch lru fl. ginv None s ch lru fl)"

text \<open>The state after a successful \<open>reclaim\<close>.\<close>

definition reclaimed :: "nat list \<Rightarrow> nat \<Rightarrow> 'd state \<Rightarrow> 'd state" where
  "reclaimed as e s =
     upd e (\<lambda>c. c\<lparr>valid := False, dirty := False\<rparr>) (lru_remove e (unlinked as e s))"

text \<open>What \<open>get_entry\<close> keeps: it never makes an entry valid and changes no key.\<close>

definition keeps :: "'d state \<Rightarrow> 'd state \<Rightarrow> bool" where
  "keeps s s' =
     (s_dirty_blocks s' = s_dirty_blocks s \<and>
      (\<forall>i. (valid (s_cache s' i) \<longrightarrow> valid (s_cache s i)) \<and>
           sector (s_cache s' i) = sector (s_cache s i) \<and> pdrv (s_cache s' i) = pdrv (s_cache s i)))"

definition clean_except :: "'d state \<Rightarrow> nat list \<Rightarrow> bool" where
  "clean_except s is =
     (\<forall>i<CACHE_SIZE. i \<notin> set is \<longrightarrow> \<not> (valid (s_cache s i) \<and> dirty (s_cache s i)))"

text \<open>\<open>block_cache_init\<close> in closed form.\<close>

definition init_entry :: "nat option \<Rightarrow> nat \<Rightarrow> cache_entry" where
  "init_entry F i = zero_entry\<lparr>hash_next := (if i = 0 then F else Some (i - 1))\<rparr>"

text \<open>Between two states: the flag is the same and no entry has become valid and dirty.\<close>

definition nomore :: "'d state \<Rightarrow> 'd state \<Rightarrow> bool" where
  "nomore s s' =
     (s_dirty_blocks s' = s_dirty_blocks s \<and>
      (\<forall>i. valid (s_cache s' i) \<and> dirty (s_cache s' i) \<longrightarrow>
           valid (s_cache s i) \<and> dirty (s_cache s i)))"

text \<open>The entries that the loop of \<open>block_cache_flush\<close> has passed without a write.\<close>

definition inval :: "bool \<Rightarrow> nat list \<Rightarrow> 'd state \<Rightarrow> 'd state" where
  "inval ia as s =
     (if ia then s\<lparr>s_cache := (\<lambda>i. if i \<in> set as then (s_cache s i)\<lparr>valid := False\<rparr> else s_cache s i)\<rparr>
      else s)"

definition wb_event :: "'d state \<Rightarrow> nat \<Rightarrow> io_event" where
  "wb_event s i =
     DevWrite (pdrv (s_cache s i)) (sector (s_cache s i)) (data (s_cache s i)) RES_OK"

definition needs_wb :: "'d state \<Rightarrow> nat \<Rightarrow> bool" where
  "needs_wb s i = (valid (s_cache s i) \<and> dirty (s_cache s i))"

text \<open>No entry of the pool but \<open>k\<close> is valid and dirty.\<close>

definition only_dirty :: "'d state \<Rightarrow> nat \<Rightarrow> bool" where
  "only_dirty s k = (\<forall>i<CACHE_SIZE. i \<noteq> k \<longrightarrow> \<not> needs_wb s i)"

text \<open>
  Drivers for the examples: a device without state on which every transfer of the SD
  card succeeds and leaves the buffer as it is; there is no USB medium.
\<close>

definition ok_drivers :: "unit drivers" where
  "ok_drivers =
     \<lparr>medium_usb = False,
      sd_disk_read = (\<lambda>d p b sec n. (RES_OK, b, d)),
      usb_disk_read = (\<lambda>d p b sec n. (RES_ERROR, b, d)),
      sd_disk_write = (\<lambda>d p b sec n. (RES_OK, d)),
      usb_disk_write = (\<lambda>d p b sec n. (RES_ERROR, d))\<rparr>"

definition blk0 :: block where
  "blk0 = replicate BLOCK_SIZE 0"

text \<open>The state after \<open>block_cache_init\<close> and one \<open>block_cache_write_block(0, 5, blk0)\<close>.\<close>

definition one_write :: "unit state" where
  "one_write =
     lru_insert_front 127 (hash_insert 127
       ((upd 127 (\<lambda>c. c\<lparr>data := memcpy (data c) blk0, sector := 5, pdrv := 0, dirty := True,
                         valid := True\<rparr>)
          ((block_cache_init (boot ()))\<lparr>s_free_head := Some 126\<rparr>))\<lparr>s_dirty_blocks := True\<rparr>))"

text \<open>
  The lists as they are found in a state: the entries met from a head pointer, at most
  \<open>n\<close> of them.
\<close>

primrec walk :: "(nat \<Rightarrow> nat option) \<Rightarrow> nat option \<Rightarrow> nat \<Rightarrow> nat list" where
  "walk nx p 0 = []"
| "walk nx p (Suc n) = (case p of None \<Rightarrow> [] | Some i \<Rightarrow> i # walk nx (nx i) n)"

definition free_list :: "'d state \<Rightarrow> nat list" where
  "free_list s = walk (HN s) (s_free_head s) CACHE_SIZE"

definition lru_list :: "'d state \<Rightarrow> nat list" where
  "lru_list s = walk (LN s) (s_lru_head s) CACHE_SIZE"

definition bucket_chain :: "'d state \<Rightarrow> nat \<Rightarrow> nat list" where
  "bucket_chain s h = walk (HN s) (s_hash_table s h) CACHE_SIZE"

text \<open>Drivers on which every transfer fails.\<close>

definition bad_drivers :: "unit drivers" where
  "bad_drivers =
     \<lparr>medium_usb = False,
      sd_disk_read = (\<lambda>d p b sec n. (RES_ERROR, b, d)),
      usb_disk_read = (\<lambda>d p b sec n. (RES_ERROR, b, d)),
      sd_disk_write = (\<lambda>d p b sec n. (RES_ERROR, d)),
      usb_disk_write = (\<lambda>d p b sec n. (RES_ERROR, d))\<rparr>"

text \<open>
  The state after a miss that found no free entry and whose write-back of the LRU tail
  \<open>e\<close> failed with \<open>r\<close>, leaving the device in \<open>d'\<close>.
\<close>

definition failed_writeback :: "DRESULT \<Rightarrow> 'd \<Rightarrow> nat \<Rightarrow> 'd state \<Rightarrow> 'd state" where
  "failed_writeback r d' e s =
     s\<lparr>dev := d',
       io_log := io_log s @
         [DevWrite (pdrv (s_cache s e)) (sector (s_cache s e)) (data (s_cache s e)) r],
       s_evict_error := r\<rparr>"

text \<open>
  The state after \<open>block_cache_init\<close> and a \<open>block_cache_read_block\<close> of a drive that
  does not exist (\<open>pdrv = 7\<close>).
\<close>

definition lost_entry :: "unit state" where
  "lost_entry =
     (block_cache_init (boot ()))\<lparr>s_free_head := Some 126, io_log := [DevRead 7 0 RES_PARERR]\<rparr>"

text \<open>What a complete pass of \<open>block_cache_flush(true, true)\<close> over the entries \<open>is\<close> leaves.\<close>

definition flushed_all :: "'d state \<Rightarrow> nat list \<Rightarrow> 'd state \<Rightarrow> bool" where
  "flushed_all s is s' =
     ((\<forall>j\<in>set is. \<not> valid (s_cache s' j) \<and>
                   (dirty (s_cache s' j) \<longrightarrow> dirty (s_cache s j) \<and> \<not> valid (s_cache s j))) \<and>
      io_log s' = io_log s @ map (wb_event s) (filter (needs_wb s) is) \<and>
      \<not> s_dirty_blocks s')"

text \<open>
  The state after \<open>block_cache_init\<close>, \<open>block_cache_flush(true, true)\<close> and a
  \<open>block_cache_read_block(0, 5, NULL)\<close> that the device serves.
\<close>

definition clean_read :: "unit state" where
  "clean_read =
     lru_insert_front 127 (hash_insert 127
       (upd 127 (\<lambda>c. c\<lparr>sector := 5, pdrv := 0, dirty := False, valid := True\<rparr>)
          ((block_cache_init (boot ()))\<lparr>s_dirty_blocks := False, s_free_head := Some 126,
                                         io_log := [DevRead 0 5 RES_OK]\<rparr>)))"







text \<open>The result code of a call, and a sequence of calls that all return \<open>RES_OK\<close>.\<close>

fun exec_res :: "'d drivers \<Rightarrow> op \<Rightarrow> 'd state \<Rightarrow> DRESULT option" where
  "exec_res D Init s = Some RES_OK"
| "exec_res D (Read pd sec out_data) s =
     map_option fst (block_cache_read_block D pd sec out_data s)"
| "exec_res D (Write pd sec in_data) s =
     map_option fst (block_cache_write_block D pd sec in_data s)"
| "exec_res D (Flush flush_all invalidate_all) s =
     Some (fst (block_cache_flush D flush_all invalidate_all s))"

fun all_ok :: "'d drivers \<Rightarrow> op list \<Rightarrow> 'd state \<Rightarrow> bool" where
  "all_ok D [] s = True"
| "all_ok D (x # xs) s =
     (exec_res D x s = Some RES_OK \<and>
      (case exec D x s of None \<Rightarrow> False | Some s' \<Rightarrow> all_ok D xs s'))"

text \<open>Accesses are the reads and writes; each has a key, its drive and sector.\<close>

fun is_access :: "op \<Rightarrow> bool" where
  "is_access (Read pd sec out_data) = True"
| "is_access (Write pd sec in_data) = True"
| "is_access x = False"

fun key_of :: "op \<Rightarrow> BYTE \<times> LBA_t" where
  "key_of (Read pd sec out_data) = (pd, sec)"
| "key_of (Write pd sec in_data) = (pd, sec)"
| "key_of x = (0, 0)"

text \<open>The device read of an access that misses, with its result: a write reads nothing.\<close>

fun dev_reads :: "op \<Rightarrow> DRESULT \<Rightarrow> io_event list" where
  "dev_reads (Read pd sec out_data) r = [DevRead pd sec r]"
| "dev_reads x r = []"

fun is_write :: "op \<Rightarrow> bool" where
  "is_write (Write pd sec in_data) = True"
| "is_write x = False"

text \<open>
  The keys touched by a sequence of accesses, the most recently touched first: what
  "least recently touched" means.
\<close>

definition recency :: "(BYTE \<times> LBA_t) list \<Rightarrow> (BYTE \<times> LBA_t) list" where
  "recency ks = fold (\<lambda>k acc. k # remove1 k acc) ks []"

definition key :: "'d state \<Rightarrow> nat \<Rightarrow> BYTE \<times> LBA_t" where
  "key s i = (pdrv (s_cache s i), sector (s_cache s i))"

text \<open>The state after a write that misses and takes the entry \<open>f\<close> (free or reclaimed).\<close>

definition installed_w :: "nat \<Rightarrow> BYTE \<Rightarrow> LBA_t \<Rightarrow> block \<Rightarrow> 'd state \<Rightarrow> 'd state" where
  "installed_w f pd sec buf s =
     lru_insert_front f (hash_insert f
       ((upd f (\<lambda>c. c\<lparr>data := memcpy (data c) buf, sector := sec, pdrv := pd, dirty := True,
                       valid := True\<rparr>) s)\<lparr>s_dirty_blocks := True\<rparr>))"

text \<open>The state after a read that misses, takes the entry \<open>f\<close> and is served by the device.\<close>

definition installed_r :: "nat \<Rightarrow> BYTE \<Rightarrow> LBA_t \<Rightarrow> 'd state \<Rightarrow> 'd state" where
  "installed_r f pd sec s =
     lru_insert_front f (hash_insert f
       (upd f (\<lambda>c. c\<lparr>sector := sec, pdrv := pd, dirty := False, valid := True\<rparr>) s))"

text \<open>
  The entries of the LRU list, from the most recently touched, hold exactly the keys
  \<open>ks\<close>, and every entry of the pool is in the LRU list or free.
\<close>

definition tracks :: "nat option \<Rightarrow> 'd state \<Rightarrow> (BYTE \<times> LBA_t) list \<Rightarrow> bool" where
  "tracks q s ks =
     (\<exists>ch lru fl. ginv q s ch lru fl \<and> map (key s) lru = ks \<and>
        (\<forall>i\<in>set lru. valid (s_cache s i)) \<and> length lru + length fl = CACHE_SIZE)"

text \<open>Writes of one buffer to a list of keys, in order.\<close>

definition writes_of :: "(BYTE \<times> LBA_t) list \<Rightarrow> block \<Rightarrow> op list" where
  "writes_of ks buf = map (\<lambda>k. Write (fst k) (snd k) buf) ks"

text \<open>Every valid entry of the pool is dirty.\<close>

definition all_dirty :: "'d state \<Rightarrow> bool" where
  "all_dirty s = (\<forall>i<CACHE_SIZE. valid (s_cache s i) \<longrightarrow> dirty (s_cache s i))"

text \<open>
  When \<open>block_cache_write_block\<close> can store the block: the key is cached already, or an
  entry is free, or the LRU tail can be evicted (it needs no write-back, or its
  write-back succeeds).
\<close>

definition can_store :: "'d drivers \<Rightarrow> BYTE \<Rightarrow> LBA_t \<Rightarrow> 'd state \<Rightarrow> bool" where
  "can_store D pd sec s =
     ((case hash_lookup pd sec s of Some (Some i) \<Rightarrow> True | _ \<Rightarrow> False) \<or>
      s_free_head s \<noteq> None \<or>
      (case s_lru_tail s of
         None \<Rightarrow> False
       | Some e \<Rightarrow> \<not> needs_wb s e \<or> fst (dev_write D e s) = RES_OK))"

text \<open>A second 512-byte buffer, different from \<open>blk0\<close>.\<close>

definition blk1 :: block where
  "blk1 = replicate BLOCK_SIZE 165"

text \<open>The keys (0, 0), ..., (0, 127) of drive 0.\<close>

definition fill_keys :: "(BYTE \<times> LBA_t) list" where
  "fill_keys = map (\<lambda>n. (0, of_nat n)) [0..<CACHE_SIZE]"

text \<open>The key \<open>k\<close> is cached: a lookup of it hits.\<close>

definition cached_key :: "'d state \<Rightarrow> BYTE \<times> LBA_t \<Rightarrow> bool" where
  "cached_key s k = (case hash_lookup (fst k) (snd k) s of Some (Some i) \<Rightarrow> True | _ \<Rightarrow> False)"

text \<open>The device write of entry \<open>i\<close> with result \<open>r\<close>, as logged.\<close>

definition wb_try :: "'d state \<Rightarrow> nat \<Rightarrow> DRESULT \<Rightarrow> io_event" where
  "wb_try s i r = DevWrite (pdrv (s_cache s i)) (sector (s_cache s i)) (data (s_cache s i)) r"

text \<open>
  The state after \<open>block_cache_init\<close> and writes of the 128 blocks 0..127 of drive 0,
  on a device that works.
\<close>

definition filled :: "unit state" where
  "filled = the (run ok_drivers (writes_of fill_keys blk0) (block_cache_init (boot ())))"

text \<open>
  The cache after writes of the distinct keys \<open>ks\<close> that followed \<open>block_cache_init\<close>:
  the \<open>m\<close>-th key is in entry \<open>127 - m\<close>, the entries taken are in the LRU list and on
  their hash chains in increasing order, and the entries left are on the free list in
  decreasing order, which ends at \<open>q\<close>.
\<close>

definition filled_to :: "nat option \<Rightarrow> 'd state \<Rightarrow> (BYTE \<times> LBA_t) list \<Rightarrow> bool" where
  "filled_to q t ks =
     (ginv q t (\<lambda>h. filter (\<lambda>i. hk t i = h) [CACHE_SIZE - length ks..<CACHE_SIZE])
        [CACHE_SIZE - length ks..<CACHE_SIZE] (rev [0..<CACHE_SIZE - length ks]) \<and>
      (\<forall>m<length ks. valid (s_cache t (CACHE_SIZE - 1 - m)) \<and>
                       key t (CACHE_SIZE - 1 - m) = ks ! m))"

text \<open>
  128 keys of drive 0, of which the first three, the blocks 0, 27 and 394, fall into
  hash bucket 0.
\<close>

definition dup_keys :: "(BYTE \<times> LBA_t) list" where
  "dup_keys = [(0, 0), (0, 27), (0, 394)] @ map (\<lambda>n. (0, of_nat n)) [1000..<1125]"

text \<open>
  A sequence of calls in which \<open>block_cache_init\<close> is called a second time, after two
  writes; 128 writes of the keys \<open>dup_keys\<close> follow, then a write of block 2000 and a
  write of block 0.
\<close>

definition twice_ops :: "op list" where
  "twice_ops = [Init] @ writes_of [(0, 5), (0, 6)] blk0 @ [Init] @ writes_of dup_keys blk0 @
               [Write 0 2000 blk0, Write 0 0 blk0]"

section \<open>Properties\<close>

lemma seg_append: "seg nx p (xs @ ys) q = (\<exists>r. seg nx p xs r \<and> seg nx r ys q)"
  by (induction xs arbitrary: p) auto

lemma seg_snoc: "seg nx p (xs @ [x]) q = (seg nx p xs (Some x) \<and> nx x = q)"
  by (auto simp: seg_append)

lemma seg_cong: "(\<And>x. x \<in> set xs \<Longrightarrow> nx x = nx' x) \<Longrightarrow> seg nx p xs q = seg nx' p xs q"
  by (induction xs arbitrary: p) auto

lemma seg_upd: "x \<notin> set xs \<Longrightarrow> seg (nx(x := v)) p xs q = seg nx p xs q"
  by (rule seg_cong) auto

lemma seg_unique: "seg nx p xs None \<Longrightarrow> seg nx p ys None \<Longrightarrow> xs = ys"
proof (induction xs arbitrary: p ys)
  case Nil
  then show ?case by (cases ys) auto
next
  case (Cons x xs)
  then show ?case by (cases ys) auto
qed

lemma hash_key_less: "hash_key pd sec < HASH_SIZE"
  unfolding hash_key_def HASH_SIZE_def Let_def
  by (simp add: unat_mod)

lemma hash_lookup_loop_seg:
  "seg (HN s) p xs None \<Longrightarrow> hash_lookup_loop s pd sec p = Some (find (matches s pd sec) xs)"
proof (induction xs arbitrary: p)
  case Nil
  then show ?case by (simp add: hash_lookup_loop.simps)
next
  case (Cons x xs)
  then have p: "p = Some x" and r: "seg (HN s) (hash_next (s_cache s x)) xs None"
    by (simp_all add: HN_def)
  have m: "(valid (s_cache s x) \<and> sector (s_cache s x) = sec \<and> pdrv (s_cache s x) = pd)
             = matches s pd sec x"
    by (simp add: matches_def)
  show ?case
    by (subst hash_lookup_loop.simps) (simp add: p Cons.IH[OF r] m)
qed

lemma upd_fields [simp]:
  "s_cache (upd i f s) = (s_cache s)(i := f (s_cache s i))"
  "s_hash_table (upd i f s) = s_hash_table s"
  "s_dirty_blocks (upd i f s) = s_dirty_blocks s"
  "s_lru_head (upd i f s) = s_lru_head s"
  "s_lru_tail (upd i f s) = s_lru_tail s"
  "s_free_head (upd i f s) = s_free_head s"
  "s_evict_error (upd i f s) = s_evict_error s"
  "dev (upd i f s) = dev s"
  "io_log (upd i f s) = io_log s"
  by (simp_all add: upd_def)

lemma seg_remove_mid:
  assumes "seg nx h (as @ e # bs) None" and "distinct (as @ e # bs)"
  shows "seg ((if as = [] then nx else nx(last as := nx e))(e := v))
             (if as = [] then nx e else h) (as @ bs) None"
proof (cases as rule: rev_cases)
  case Nil
  with assms show ?thesis by (simp add: seg_upd)
next
  case (snoc as' a)
  with assms have 1: "seg nx h as' (Some a)" and 2: "nx a = Some e" and 3: "seg nx (nx e) bs None"
    and d: "a \<notin> set as'" "e \<notin> set as'" "a \<notin> set bs" "e \<notin> set bs" "a \<noteq> e"
    by (auto simp: seg_append)
  show ?thesis
    using 1 3 d by (simp add: snoc seg_append seg_upd)
qed

lemma seg_last:
  "seg nx h (as @ [a]) None \<Longrightarrow> nx a = None"
  by (simp add: seg_snoc)

lemma seg_mid_next:
  "seg nx h (as @ e # bs) None \<Longrightarrow> nx e = (if bs = [] then None else Some (hd bs))"
  by (cases bs) (auto simp: seg_append)

lemma seg_head:
  "seg nx h xs q \<Longrightarrow> xs \<noteq> [] \<Longrightarrow> h = Some (hd xs)"
  by (cases xs) auto

lemma lru_remove_fields:
  assumes "lru_prev (s_cache s e) = P" "lru_next (s_cache s e) = N" "P \<noteq> Some e" "N \<noteq> Some e"
  shows "LN (lru_remove e s) = (case P of Some p \<Rightarrow> (LN s)(p := N) | None \<Rightarrow> LN s)(e := None)"
    and "LP (lru_remove e s) = (case N of Some n \<Rightarrow> (LP s)(n := P) | None \<Rightarrow> LP s)(e := None)"
    and "s_lru_head (lru_remove e s) = (if s_lru_head s = Some e then N else s_lru_head s)"
    and "s_lru_tail (lru_remove e s) = (if s_lru_tail s = Some e then P else s_lru_tail s)"
  using assms
  by (auto simp: lru_remove_def Let_def LN_def LP_def fun_eq_iff split: option.splits)

lemma lru_remove_ok:
  assumes ok: "lru_ok s lru" and e: "e \<in> set lru"
  shows "lru_ok (lru_remove e s) (remove1 e lru)"
proof -
  from e obtain as bs where lru: "lru = as @ e # bs" and eas: "e \<notin> set as"
    by (auto dest: split_list_first)
  from ok have f: "seg (LN s) (s_lru_head s) (as @ e # bs) None"
    and b: "seg (LP s) (s_lru_tail s) (rev bs @ e # rev as) None"
    and d: "distinct (as @ e # bs)"
    by (simp_all add: lru_ok_def lru)
  have d': "distinct (rev bs @ e # rev as)" using d by auto
  have N: "lru_next (s_cache s e) = (if bs = [] then None else Some (hd bs))"
    using seg_mid_next[OF f] by (simp add: LN_def)
  have P: "lru_prev (s_cache s e) = (if as = [] then None else Some (last as))"
    using seg_mid_next[OF b] by (simp add: LP_def hd_rev)
  have ne: "(if as = [] then None else Some (last as)) \<noteq> Some e"
       "(if bs = [] then None else Some (hd bs)) \<noteq> Some e"
    using d by (auto simp: last_in_set dest: hd_in_set)
  note flds = lru_remove_fields[OF P N ne]
  have hd: "s_lru_head s = Some e \<longleftrightarrow> as = []"
    using seg_head[OF f] d by (cases as) auto
  have tl: "s_lru_tail s = Some e \<longleftrightarrow> bs = []"
    using seg_head[OF b] d by (cases bs rule: rev_cases) auto
  have r1: "remove1 e lru = as @ bs" using eas by (simp add: lru remove1_append)
  have F: "seg (LN (lru_remove e s)) (s_lru_head (lru_remove e s)) (as @ bs) None"
  proof -
    have "seg ((if as = [] then LN s else (LN s)(last as := LN s e))(e := None))
             (if as = [] then LN s e else s_lru_head s) (as @ bs) None"
      by (rule seg_remove_mid[OF f d])
    moreover have "LN s e = (if bs = [] then None else Some (hd bs))"
      using N by (simp add: LN_def)
    ultimately show ?thesis
      using hd seg_head[OF f] by (auto simp: flds split: if_splits)
  qed
  have B: "seg (LP (lru_remove e s)) (s_lru_tail (lru_remove e s)) (rev (as @ bs)) None"
  proof -
    have "seg ((if rev bs = [] then LP s else (LP s)(last (rev bs) := LP s e))(e := None))
             (if rev bs = [] then LP s e else s_lru_tail s) (rev bs @ rev as) None"
      by (rule seg_remove_mid[OF b d'])
    moreover have "LP s e = (if as = [] then None else Some (last as))"
      using P by (simp add: LP_def)
    ultimately show ?thesis
      using tl seg_head[OF b] by (auto simp: flds last_rev split: if_splits)
  qed
  show ?thesis
    using F B d by (simp add: lru_ok_def r1)
qed

lemma lru_insert_front_fields:
  assumes "s_lru_head s \<noteq> Some e"
  shows "LN (lru_insert_front e s) = (LN s)(e := s_lru_head s)"
    and "LP (lru_insert_front e s) =
           (case s_lru_head s of Some h \<Rightarrow> (LP s)(e := None, h := Some e) | None \<Rightarrow> (LP s)(e := None))"
    and "s_lru_head (lru_insert_front e s) = Some e"
    and "s_lru_tail (lru_insert_front e s) = (if s_lru_tail s = None then Some e else s_lru_tail s)"
  using assms
  by (auto simp: lru_insert_front_def Let_def LN_def LP_def fun_eq_iff split: option.splits)

lemma lru_insert_front_ok:
  assumes ok: "lru_ok s lru" and e: "e \<notin> set lru"
  shows "lru_ok (lru_insert_front e s) (e # lru)"
proof -
  from ok have f: "seg (LN s) (s_lru_head s) lru None"
    and b: "seg (LP s) (s_lru_tail s) (rev lru) None" and d: "distinct lru"
    by (simp_all add: lru_ok_def)
  have hne: "s_lru_head s \<noteq> Some e"
    using f e by (cases lru) auto
  note flds = lru_insert_front_fields[OF hne]
  have F: "seg (LN (lru_insert_front e s)) (s_lru_head (lru_insert_front e s)) (e # lru) None"
    using f e by (simp add: flds seg_upd)
  have B: "seg (LP (lru_insert_front e s)) (s_lru_tail (lru_insert_front e s)) (rev (e # lru)) None"
  proof (cases lru)
    case Nil
    with f b show ?thesis by (simp add: flds)
  next
    case (Cons h rest)
    with f have hd: "s_lru_head s = Some h" by simp
    from b Cons have 1: "seg (LP s) (s_lru_tail s) (rev rest) (Some h)" and 2: "LP s h = None"
      by (simp_all add: seg_snoc)
    have tl: "s_lru_tail s \<noteq> None"
      using b Cons by (cases "rev rest") (auto simp: seg_snoc)
    have nin: "h \<notin> set rest" "e \<notin> set rest" "e \<noteq> h"
      using d e Cons by auto
    show ?thesis
      using 1 2 tl nin by (auto simp: flds hd Cons seg_append seg_upd)
  qed
  show ?thesis using F B d e by (simp add: lru_ok_def)
qed

lemma lru_only_refl: "lru_only s s"
  by (simp add: lru_only_def)

lemma lru_only_trans: "lru_only s s' \<Longrightarrow> lru_only s' s'' \<Longrightarrow> lru_only s s''"
  by (simp add: lru_only_def)

lemma lru_remove_only: "lru_only s (lru_remove e s)"
  by (simp add: lru_only_def lru_remove_def Let_def split: option.splits)

lemma lru_insert_front_only: "lru_only s (lru_insert_front e s)"
  by (simp add: lru_only_def lru_insert_front_def Let_def split: option.splits)

lemma lru_touch_only: "lru_only s (lru_touch e s)"
  by (auto simp: lru_touch_def lru_only_refl
        intro: lru_only_trans[OF lru_remove_only lru_insert_front_only])

lemma lru_touch_ok:
  assumes "lru_ok s lru" and "e \<in> set lru"
  shows "lru_ok (lru_touch e s) (e # remove1 e lru)"
proof (cases "s_lru_head s = Some e")
  case True
  from assms have "seg (LN s) (s_lru_head s) lru None" by (simp add: lru_ok_def)
  with True assms(2) have "hd lru = e" by (cases lru) auto
  with assms(2) have "e # remove1 e lru = lru" by (cases lru) auto
  with True assms(1) show ?thesis by (simp add: lru_touch_def)
next
  case False
  have "lru_ok (lru_remove e s) (remove1 e lru)" by (rule lru_remove_ok[OF assms])
  moreover have "e \<notin> set (remove1 e lru)"
    using assms(1) by (simp add: lru_ok_def)
  ultimately show ?thesis
    using False by (simp add: lru_touch_def lru_insert_front_ok)
qed

lemma lru_only_HN: "lru_only s s' \<Longrightarrow> HN s' = HN s"
  by (simp add: lru_only_def HN_def)

lemma lru_only_hk: "lru_only s s' \<Longrightarrow> hk s' = hk s"
  by (simp add: lru_only_def hk_def fun_eq_iff)

lemma lru_only_matches: "lru_only s s' \<Longrightarrow> matches s' = matches s"
  by (simp add: lru_only_def matches_def fun_eq_iff)

lemma hash_okD:
  "hash_ok s ch \<Longrightarrow> h < HASH_SIZE \<Longrightarrow>
     seg (HN s) (s_hash_table s h) (ch h) None \<and> distinct (ch h) \<and> (\<forall>i\<in>set (ch h). hk s i = h)"
  unfolding hash_ok_def by blast

lemma hash_ok_out: "hash_ok s ch \<Longrightarrow> HASH_SIZE \<le> h \<Longrightarrow> ch h = []"
  unfolding hash_ok_def by blast

lemma hk_less: "hk s i < HASH_SIZE"
  by (simp add: hk_def hash_key_less)

lemma hash_ok_mem: "hash_ok s ch \<Longrightarrow> i \<in> set (ch h) \<Longrightarrow> hk s i = h \<and> h < HASH_SIZE"
  using hash_okD[of s ch h] hash_ok_out[of s ch h] by (cases "h < HASH_SIZE") auto

lemma hash_lookup_ok:
  "hash_ok s ch \<Longrightarrow> hash_lookup pd sec s = Some (find (matches s pd sec) (ch (hash_key pd sec)))"
  unfolding hash_lookup_def
  by (rule hash_lookup_loop_seg) (simp add: hash_okD hash_key_less)

lemma hash_insert_fields:
  "HN (hash_insert e s) = (HN s)(e := s_hash_table s (hk s e))"
  "s_hash_table (hash_insert e s) = (s_hash_table s)(hk s e := Some e)"
  "hk (hash_insert e s) = hk s"
  "LN (hash_insert e s) = LN s"
  "LP (hash_insert e s) = LP s"
  "s_lru_head (hash_insert e s) = s_lru_head s"
  "s_lru_tail (hash_insert e s) = s_lru_tail s"
  "s_free_head (hash_insert e s) = s_free_head s"
  "s_dirty_blocks (hash_insert e s) = s_dirty_blocks s"
  "valid (s_cache (hash_insert e s) i) = valid (s_cache s i)"
  "dirty (s_cache (hash_insert e s) i) = dirty (s_cache s i)"
  "sector (s_cache (hash_insert e s) i) = sector (s_cache s i)"
  "pdrv (s_cache (hash_insert e s) i) = pdrv (s_cache s i)"
  "data (s_cache (hash_insert e s) i) = data (s_cache s i)"
  "dev (hash_insert e s) = dev s"
  "io_log (hash_insert e s) = io_log s"
  "s_evict_error (hash_insert e s) = s_evict_error s"
  by (simp_all add: hash_insert_def Let_def HN_def LN_def LP_def hk_def fun_eq_iff)

lemma hash_insert_ok:
  assumes ok: "hash_ok s ch" and e: "\<And>h. e \<notin> set (ch h)"
  shows "hash_ok (hash_insert e s) (ch(hk s e := e # ch (hk s e)))"
  unfolding hash_ok_def
proof (intro conjI allI impI)
  fix h assume h: "h < HASH_SIZE"
  from hash_okD[OF ok h]
  have 1: "seg (HN s) (s_hash_table s h) (ch h) None" and 2: "distinct (ch h)"
    and 3: "\<forall>i\<in>set (ch h). hk s i = h"
    by simp_all
  show "seg (HN (hash_insert e s)) (s_hash_table (hash_insert e s) h)
          ((ch(hk s e := e # ch (hk s e))) h) None"
    using 1 e by (auto simp: hash_insert_fields seg_upd)
  show "distinct ((ch(hk s e := e # ch (hk s e))) h)"
    using 2 e by auto
  show "\<forall>i\<in>set ((ch(hk s e := e # ch (hk s e))) h). hk (hash_insert e s) i = h"
    using 3 by (simp add: hash_insert_fields)
next
  fix h assume "HASH_SIZE \<le> h"
  with ok have "ch h = []" by (simp add: hash_ok_out)
  moreover have "hk s e < HASH_SIZE" by (rule hk_less)
  ultimately show "(ch(hk s e := e # ch (hk s e))) h = []"
    using \<open>HASH_SIZE \<le> h\<close> by auto
qed

lemma hash_remove_loop_seg:
  "seg (HN s) (deref s pp) as (Some e) \<Longrightarrow> e \<notin> set as \<Longrightarrow>
   hash_remove_loop e pp s =
     Some (upd e (\<lambda>c. c\<lparr>hash_next := None\<rparr>)
            (assign (if as = [] then pp else Next (last as)) (hash_next (s_cache s e)) s))"
proof (induction as arbitrary: pp)
  case Nil
  then show ?case
    by (subst hash_remove_loop.simps) (simp add: Let_def)
next
  case (Cons a as)
  then have d: "deref s pp = Some a" and ne: "a \<noteq> e"
    and r: "seg (HN s) (deref s (Next a)) as (Some e)" and nin: "e \<notin> set as"
    by (simp_all add: deref_def HN_def)
  show ?case
    by (subst hash_remove_loop.simps) (simp add: d ne Cons.IH[OF r nin])
qed

lemma hash_remove_ok:
  assumes ok: "hash_ok s ch" and c: "ch (hk s e) = as @ e # bs"
  shows "hash_remove e s = Some (unlinked as e s)"
    and "hash_ok (unlinked as e s) (ch(hk s e := as @ bs))"
proof -
  let ?h = "hk s e"
  have h: "?h < HASH_SIZE" by (rule hk_less)
  from hash_okD[OF ok h] have "seg (HN s) (s_hash_table s ?h) (ch ?h) None \<and> distinct (ch ?h)"
    by simp
  with c have sg: "seg (HN s) (s_hash_table s ?h) (as @ e # bs) None"
    and d: "distinct (as @ e # bs)"
    by simp_all
  from sg have "seg (HN s) (deref s (Bucket ?h)) as (Some e)"
    by (auto simp: seg_append deref_def)
  moreover have "e \<notin> set as" using d by simp
  ultimately show "hash_remove e s = Some (unlinked as e s)"
    unfolding hash_remove_def unlinked_def hk_def[symmetric]
    by (rule hash_remove_loop_seg)
  have HN': "HN (unlinked as e s) = (if as = [] then HN s else (HN s)(last as := HN s e))(e := None)"
    by (simp add: unlinked_def assign_def HN_def fun_eq_iff)
  have T': "s_hash_table (unlinked as e s) =
             (if as = [] then (s_hash_table s)(?h := HN s e) else s_hash_table s)"
    by (simp add: unlinked_def assign_def HN_def)
  have hk': "hk (unlinked as e s) = hk s"
    by (auto simp: unlinked_def assign_def hk_def fun_eq_iff)
  show "hash_ok (unlinked as e s) (ch(?h := as @ bs))"
    unfolding hash_ok_def
  proof (intro conjI allI impI)
    fix g assume g: "g < HASH_SIZE"
    from hash_okD[OF ok g]
    have 1: "seg (HN s) (s_hash_table s g) (ch g) None" and 2: "distinct (ch g)"
      and 3: "\<forall>i\<in>set (ch g). hk s i = g"
      by simp_all
    show "seg (HN (unlinked as e s)) (s_hash_table (unlinked as e s) g)
            ((ch(?h := as @ bs)) g) None"
    proof (cases "g = ?h")
      case True
      have "seg ((if as = [] then HN s else (HN s)(last as := HN s e))(e := None))
              (if as = [] then HN s e else s_hash_table s ?h) (as @ bs) None"
        by (rule seg_remove_mid[OF sg d])
      then show ?thesis using True HN' T' by (cases "as = []") simp_all
    next
      case False
      have "e \<notin> set (ch g)" using 3 False by auto
      moreover have "as \<noteq> [] \<Longrightarrow> last as \<notin> set (ch g)"
      proof
        assume "as \<noteq> []" "last as \<in> set (ch g)"
        then have "hk s (last as) = g" using 3 by auto
        moreover have "last as \<in> set (ch ?h)" using \<open>as \<noteq> []\<close> c by simp
        then have "hk s (last as) = ?h" using hash_ok_mem[OF ok] by blast
        ultimately show False using False by simp
      qed
      ultimately show ?thesis using 1 False by (simp add: HN' T' seg_upd)
    qed
    show "distinct ((ch(?h := as @ bs)) g)"
    proof (cases "g = ?h")
      case True
      then show ?thesis using d by simp
    next
      case False
      then show ?thesis using 2 by simp
    qed
    show "\<forall>i\<in>set ((ch(?h := as @ bs)) g). hk (unlinked as e s) i = g"
    proof (cases "g = ?h")
      case True
      have "hk s i = ?h" if "i \<in> set (as @ bs)" for i
      proof -
        from that have "i \<in> set (ch ?h)" by (auto simp: c)
        then show ?thesis using hash_ok_mem[OF ok] by blast
      qed
      then show ?thesis using True by (simp add: hk')
    next
      case False
      then show ?thesis using 3 by (simp add: hk')
    qed
  next
    fix g assume "HASH_SIZE \<le> g"
    with ok have "ch g = []" by (simp add: hash_ok_out)
    then show "(ch(?h := as @ bs)) g = []"
      using \<open>HASH_SIZE \<le> g\<close> h by auto
  qed
qed

lemma proj_simps [simp]:
  "HN (s\<lparr>s_hash_table := t\<rparr>) = HN s" "HN (s\<lparr>s_dirty_blocks := b\<rparr>) = HN s"
  "HN (s\<lparr>s_lru_head := p\<rparr>) = HN s" "HN (s\<lparr>s_lru_tail := p\<rparr>) = HN s"
  "HN (s\<lparr>s_free_head := p\<rparr>) = HN s" "HN (s\<lparr>s_evict_error := r\<rparr>) = HN s"
  "HN (s\<lparr>dev := d\<rparr>) = HN s" "HN (s\<lparr>io_log := l\<rparr>) = HN s"
  "LN (s\<lparr>s_hash_table := t\<rparr>) = LN s" "LN (s\<lparr>s_dirty_blocks := b\<rparr>) = LN s"
  "LN (s\<lparr>s_lru_head := p\<rparr>) = LN s" "LN (s\<lparr>s_lru_tail := p\<rparr>) = LN s"
  "LN (s\<lparr>s_free_head := p\<rparr>) = LN s" "LN (s\<lparr>s_evict_error := r\<rparr>) = LN s"
  "LN (s\<lparr>dev := d\<rparr>) = LN s" "LN (s\<lparr>io_log := l\<rparr>) = LN s"
  "LP (s\<lparr>s_hash_table := t\<rparr>) = LP s" "LP (s\<lparr>s_dirty_blocks := b\<rparr>) = LP s"
  "LP (s\<lparr>s_lru_head := p\<rparr>) = LP s" "LP (s\<lparr>s_lru_tail := p\<rparr>) = LP s"
  "LP (s\<lparr>s_free_head := p\<rparr>) = LP s" "LP (s\<lparr>s_evict_error := r\<rparr>) = LP s"
  "LP (s\<lparr>dev := d\<rparr>) = LP s" "LP (s\<lparr>io_log := l\<rparr>) = LP s"
  "hk (s\<lparr>s_hash_table := t\<rparr>) = hk s" "hk (s\<lparr>s_dirty_blocks := b\<rparr>) = hk s"
  "hk (s\<lparr>s_lru_head := p\<rparr>) = hk s" "hk (s\<lparr>s_lru_tail := p\<rparr>) = hk s"
  "hk (s\<lparr>s_free_head := p\<rparr>) = hk s" "hk (s\<lparr>s_evict_error := r\<rparr>) = hk s"
  "hk (s\<lparr>dev := d\<rparr>) = hk s" "hk (s\<lparr>io_log := l\<rparr>) = hk s"
  by (simp_all add: HN_def LN_def LP_def hk_def fun_eq_iff)

lemma proj_upd:
  "HN (upd i f s) = (HN s)(i := hash_next (f (s_cache s i)))"
  "LN (upd i f s) = (LN s)(i := lru_next (f (s_cache s i)))"
  "LP (upd i f s) = (LP s)(i := lru_prev (f (s_cache s i)))"
  "hk (upd i f s) = (hk s)(i := hash_key (pdrv (f (s_cache s i))) (sector (f (s_cache s i))))"
  by (simp_all add: HN_def LN_def LP_def hk_def fun_eq_iff)

lemma proj_triv [simp]:
  "(HN s)(i := hash_next (s_cache s i)) = HN s"
  "(LN s)(i := lru_next (s_cache s i)) = LN s"
  "(LP s)(i := lru_prev (s_cache s i)) = LP s"
  "(hk s)(i := hash_key (pdrv (s_cache s i)) (sector (s_cache s i))) = hk s"
  by (simp_all add: HN_def LN_def LP_def hk_def fun_eq_iff)

lemma ginvD:
  assumes "ginv q s ch lru fl"
  shows "hash_ok s ch" "lru_ok s lru" "free_ok q s fl" "link_ok ch lru fl" "vd_ok s lru fl"
    "flag_ok s" "uniq s"
  using assms by (simp_all add: ginv_def)

lemma ginvI:
  "hash_ok s ch \<Longrightarrow> lru_ok s lru \<Longrightarrow> free_ok q s fl \<Longrightarrow> link_ok ch lru fl \<Longrightarrow> vd_ok s lru fl \<Longrightarrow>
   flag_ok s \<Longrightarrow> uniq s \<Longrightarrow> ginv q s ch lru fl"
  by (simp add: ginv_def)

text \<open>Congruences: what each part of the invariant reads.\<close>

lemma hash_ok_cong:
  "HN s' = HN s \<Longrightarrow> s_hash_table s' = s_hash_table s \<Longrightarrow> hk s' = hk s \<Longrightarrow> hash_ok s' ch = hash_ok s ch"
  by (simp add: hash_ok_def)

lemma lru_ok_cong:
  "LN s' = LN s \<Longrightarrow> LP s' = LP s \<Longrightarrow> s_lru_head s' = s_lru_head s \<Longrightarrow> s_lru_tail s' = s_lru_tail s \<Longrightarrow>
   lru_ok s' lru = lru_ok s lru"
  by (simp add: lru_ok_def)

lemma free_ok_cong:
  "HN s' = HN s \<Longrightarrow> s_free_head s' = s_free_head s \<Longrightarrow> free_ok q s' fl = free_ok q s fl"
  by (simp add: free_ok_def)

lemma free_get_none: "s_free_head s = None \<Longrightarrow> free_get s = (None, s)"
  by (simp add: free_get_def)

lemma free_get_some:
  "s_free_head s = Some x \<Longrightarrow> free_get s = (Some x, s\<lparr>s_free_head := hash_next (s_cache s x)\<rparr>)"
  by (simp add: free_get_def)

lemma free_get_ok:
  assumes g: "ginv q s ch lru (x # fl)"
  shows "free_get s = (Some x, s\<lparr>s_free_head := hash_next (s_cache s x)\<rparr>)"
    and "ginv q (s\<lparr>s_free_head := hash_next (s_cache s x)\<rparr>) ch lru fl"
    and "x < CACHE_SIZE" "x \<notin> set lru" "x \<notin> set fl" "\<not> valid (s_cache s x)"
proof -
  note p = ginvD[OF g]
  from p(3) have hd: "s_free_head s = Some x" and sg: "seg (HN s) (HN s x) fl q"
    and d: "x \<notin> set fl" "distinct fl"
    by (simp_all add: free_ok_def)
  show "free_get s = (Some x, s\<lparr>s_free_head := hash_next (s_cache s x)\<rparr>)"
    by (rule free_get_some[OF hd])
  show "x < CACHE_SIZE" "x \<notin> set lru" using p(4) unfolding link_ok_def by auto
  show "x \<notin> set fl" by (rule d)
  show "\<not> valid (s_cache s x)" using p(5) by (simp add: vd_ok_def)
  let ?s = "s\<lparr>s_free_head := hash_next (s_cache s x)\<rparr>"
  show "ginv q ?s ch lru fl"
  proof (rule ginvI)
    show "hash_ok ?s ch" using p(1) by (simp add: hash_ok_cong[of ?s s])
    show "lru_ok ?s lru" using p(2) by (simp add: lru_ok_cong[of ?s s])
    show "free_ok q ?s fl" using sg d by (simp add: free_ok_def HN_def)
    show "link_ok ch lru fl" using p(4) unfolding link_ok_def by auto
    show "vd_ok ?s lru fl" using p(5) by (simp add: vd_ok_def)
    show "flag_ok ?s" using p(6) by (simp add: flag_ok_def)
    show "uniq ?s" using p(7) by (simp add: uniq_def)
  qed
qed

lemma lru_onlyD:
  assumes "lru_only s s'"
  shows "valid (s_cache s' i) = valid (s_cache s i)" "dirty (s_cache s' i) = dirty (s_cache s i)"
    "sector (s_cache s' i) = sector (s_cache s i)" "pdrv (s_cache s' i) = pdrv (s_cache s i)"
    "data (s_cache s' i) = data (s_cache s i)" "hash_next (s_cache s' i) = hash_next (s_cache s i)"
    "s_hash_table s' = s_hash_table s" "s_dirty_blocks s' = s_dirty_blocks s"
    "s_free_head s' = s_free_head s" "s_evict_error s' = s_evict_error s" "dev s' = dev s"
    "io_log s' = io_log s"
  using assms by (simp_all add: lru_only_def)

lemma unlinked_fields:
  "HN (unlinked as e s) = (if as = [] then HN s else (HN s)(last as := HN s e))(e := None)"
  "s_hash_table (unlinked as e s) =
     (if as = [] then (s_hash_table s)(hk s e := HN s e) else s_hash_table s)"
  "hk (unlinked as e s) = hk s"
  "LN (unlinked as e s) = LN s"
  "LP (unlinked as e s) = LP s"
  "s_lru_head (unlinked as e s) = s_lru_head s"
  "s_lru_tail (unlinked as e s) = s_lru_tail s"
  "s_free_head (unlinked as e s) = s_free_head s"
  "s_dirty_blocks (unlinked as e s) = s_dirty_blocks s"
  "s_evict_error (unlinked as e s) = s_evict_error s"
  "dev (unlinked as e s) = dev s"
  "io_log (unlinked as e s) = io_log s"
  "valid (s_cache (unlinked as e s) i) = valid (s_cache s i)"
  "dirty (s_cache (unlinked as e s) i) = dirty (s_cache s i)"
  "sector (s_cache (unlinked as e s) i) = sector (s_cache s i)"
  "pdrv (s_cache (unlinked as e s) i) = pdrv (s_cache s i)"
  "data (s_cache (unlinked as e s) i) = data (s_cache s i)"
  by (simp_all add: unlinked_def assign_def HN_def LN_def LP_def hk_def fun_eq_iff)

lemma lru_ok_tail: "lru_ok s lru \<Longrightarrow> s_lru_tail s = (if lru = [] then None else Some (last lru))"
  unfolding lru_ok_def by (cases lru rule: rev_cases) auto

lemma lru_ok_head: "lru_ok s lru \<Longrightarrow> s_lru_head s = (if lru = [] then None else Some (hd lru))"
  unfolding lru_ok_def by (cases lru) auto

lemma reclaimed_fields:
  "HN (reclaimed as e s) = HN (unlinked as e s)"
  "s_hash_table (reclaimed as e s) = s_hash_table (unlinked as e s)"
  "hk (reclaimed as e s) = hk s"
  "s_free_head (reclaimed as e s) = s_free_head s"
  "s_dirty_blocks (reclaimed as e s) = s_dirty_blocks s"
  "s_evict_error (reclaimed as e s) = s_evict_error s"
  "dev (reclaimed as e s) = dev s"
  "io_log (reclaimed as e s) = io_log s"
  "valid (s_cache (reclaimed as e s) i) = (i \<noteq> e \<and> valid (s_cache s i))"
  "dirty (s_cache (reclaimed as e s) i) = (i \<noteq> e \<and> dirty (s_cache s i))"
  "sector (s_cache (reclaimed as e s) i) = sector (s_cache s i)"
  "pdrv (s_cache (reclaimed as e s) i) = pdrv (s_cache s i)"
  "data (s_cache (reclaimed as e s) i) = data (s_cache s i)"
  using lru_onlyD[OF lru_remove_only, of e "unlinked as e s"]
  by (simp_all add: reclaimed_def proj_upd unlinked_fields HN_def hk_def fun_eq_iff)

lemma reclaimed_lru_ok:
  assumes "lru_ok s lru" "e \<in> set lru"
  shows "lru_ok (reclaimed as e s) (remove1 e lru)"
proof -
  have "lru_ok (unlinked as e s) lru"
    using assms(1) by (simp add: lru_ok_cong[of "unlinked as e s" s] unlinked_fields)
  then have "lru_ok (lru_remove e (unlinked as e s)) (remove1 e lru)"
    using assms(2) by (rule lru_remove_ok)
  then show ?thesis
    by (simp add: reclaimed_def lru_ok_def proj_upd)
qed

lemma reclaim_ok:
  assumes g: "ginv q s ch lru fl" and e: "e \<in> set lru"
  shows "\<exists>as bs. ch (hk s e) = as @ e # bs \<and>
           reclaim e s = Some (Some e, reclaimed as e s) \<and>
           ginv q (reclaimed as e s) (ch(hk s e := as @ bs)) (remove1 e lru) fl"
proof -
  note p = ginvD[OF g]
  let ?h = "hk s e"
  from p(4) e obtain h where "e \<in> set (ch h)" unfolding link_ok_def by blast
  with hash_ok_mem[OF p(1)] have "e \<in> set (ch ?h)" by blast
  then obtain as bs where c: "ch ?h = as @ e # bs" by (auto dest: split_list)
  from hash_okD[OF p(1) hk_less[of s e]] c have d: "distinct (as @ e # bs)" by simp
  let ?s = "reclaimed as e s" and ?ch = "ch(?h := as @ bs)"
  note hr = hash_remove_ok[OF p(1) c]
  have r: "reclaim e s = Some (Some e, ?s)"
    by (simp add: reclaim_def hr(1) reclaimed_def)
  have mem: "(\<exists>h. i \<in> set (?ch h)) \<longleftrightarrow> (i \<noteq> e \<and> (\<exists>h. i \<in> set (ch h)))" for i
  proof
    assume "\<exists>h. i \<in> set (?ch h)"
    then obtain h where h: "i \<in> set (?ch h)" ..
    show "i \<noteq> e \<and> (\<exists>h. i \<in> set (ch h))"
    proof (cases "h = ?h")
      case True
      with h c d show ?thesis by (auto intro: exI[of _ ?h])
    next
      case False
      with h have ih: "i \<in> set (ch h)" by simp
      then have "hk s i = h" using hash_ok_mem[OF p(1)] by blast
      with False ih show ?thesis by auto
    qed
  next
    assume a: "i \<noteq> e \<and> (\<exists>h. i \<in> set (ch h))"
    then obtain h where h: "i \<in> set (ch h)" by blast
    show "\<exists>h. i \<in> set (?ch h)"
    proof (cases "h = ?h")
      case True
      with h c a have "i \<in> set (?ch ?h)" by auto
      then show ?thesis ..
    next
      case False
      with h have "i \<in> set (?ch h)" by simp
      then show ?thesis ..
    qed
  qed
  have dl: "distinct lru" using p(2) by (simp add: lru_ok_def)
  have inl: "e \<in> set lru" "as \<noteq> [] \<Longrightarrow> last as \<in> set lru"
  proof -
    show "e \<in> set lru" by (rule e)
    assume "as \<noteq> []"
    then have "last as \<in> set (ch ?h)" by (simp add: c)
    then show "last as \<in> set lru" using p(4) unfolding link_ok_def by blast
  qed
  have nfl: "e \<notin> set fl" "as \<noteq> [] \<Longrightarrow> last as \<notin> set fl"
    using inl p(4) unfolding link_ok_def by blast+
  have "ginv q ?s ?ch (remove1 e lru) fl"
  proof (rule ginvI)
    show "hash_ok ?s ?ch"
      using hr(2) by (simp add: hash_ok_cong[of ?s "unlinked as e s"] reclaimed_fields unlinked_fields)
    show "lru_ok ?s (remove1 e lru)" by (rule reclaimed_lru_ok[OF p(2) e])
    show "free_ok q ?s fl"
      using p(3) nfl by (simp add: free_ok_def reclaimed_fields unlinked_fields seg_upd)
    show "link_ok ?ch (remove1 e lru) fl"
      using p(4) unfolding link_ok_def mem by (auto simp: dl)
    show "vd_ok ?s (remove1 e lru) fl"
      using p(5) by (auto simp: vd_ok_def reclaimed_fields dl)
    show "flag_ok ?s" using p(6) by (simp add: flag_ok_def reclaimed_fields)
    show "uniq ?s" using p(7) unfolding uniq_def by (simp add: reclaimed_fields)
  qed
  with c r show ?thesis by blast
qed

lemma ginv_cong:
  assumes "HN s' = HN s" "LN s' = LN s" "LP s' = LP s" "s_hash_table s' = s_hash_table s"
    "s_lru_head s' = s_lru_head s" "s_lru_tail s' = s_lru_tail s" "s_free_head s' = s_free_head s"
    "s_dirty_blocks s' = s_dirty_blocks s"
    "\<And>i. valid (s_cache s' i) = valid (s_cache s i)"
    "\<And>i. dirty (s_cache s' i) = dirty (s_cache s i)"
    "\<And>i. sector (s_cache s' i) = sector (s_cache s i)"
    "\<And>i. pdrv (s_cache s' i) = pdrv (s_cache s i)"
  shows "ginv q s' ch lru fl = ginv q s ch lru fl"
proof -
  have "hk s' = hk s" using assms(11,12) by (simp add: hk_def fun_eq_iff)
  then have "hash_ok s' ch = hash_ok s ch" using assms(1,4) by (intro hash_ok_cong)
  moreover have "lru_ok s' lru = lru_ok s lru" using assms(2,3,5,6) by (intro lru_ok_cong)
  moreover have "free_ok q s' fl = free_ok q s fl" using assms(1,7) by (intro free_ok_cong)
  moreover have "vd_ok s' lru fl = vd_ok s lru fl" using assms(9,10) by (simp add: vd_ok_def)
  moreover have "flag_ok s' = flag_ok s" using assms(8,9,10) by (simp add: flag_ok_def)
  moreover have "uniq s' = uniq s" using assms(9,11,12) by (simp add: uniq_def)
  ultimately show ?thesis by (simp add: ginv_def)
qed

lemma ginv_io [simp]:
  "ginv q (s\<lparr>dev := d\<rparr>) ch lru fl = ginv q s ch lru fl"
  "ginv q (s\<lparr>io_log := l\<rparr>) ch lru fl = ginv q s ch lru fl"
  "ginv q (s\<lparr>s_evict_error := r\<rparr>) ch lru fl = ginv q s ch lru fl"
  by (rule ginv_cong; simp)+

lemma ginv_data [simp]:
  "ginv q (upd i (\<lambda>c. c\<lparr>data := b c\<rparr>) s) ch lru fl = ginv q s ch lru fl"
  by (rule ginv_cong; simp add: proj_upd)

lemma dev_write_eq:
  "dev_write D i s =
     (fst (disk_write_no_cache D (dev s) (pdrv (s_cache s i)) (data (s_cache s i)) (sector (s_cache s i)) 1),
      s\<lparr>dev := snd (disk_write_no_cache D (dev s) (pdrv (s_cache s i)) (data (s_cache s i))
                      (sector (s_cache s i)) 1),
        io_log := io_log s @ [DevWrite (pdrv (s_cache s i)) (sector (s_cache s i)) (data (s_cache s i))
          (fst (disk_write_no_cache D (dev s) (pdrv (s_cache s i)) (data (s_cache s i))
                  (sector (s_cache s i)) 1))]\<rparr>)"
  by (simp add: dev_write_def split: prod.splits)

lemma dev_write_cache [simp]:
  "s_cache (snd (dev_write D i s)) = s_cache s"
  "s_hash_table (snd (dev_write D i s)) = s_hash_table s"
  "s_dirty_blocks (snd (dev_write D i s)) = s_dirty_blocks s"
  "s_lru_head (snd (dev_write D i s)) = s_lru_head s"
  "s_lru_tail (snd (dev_write D i s)) = s_lru_tail s"
  "s_free_head (snd (dev_write D i s)) = s_free_head s"
  "s_evict_error (snd (dev_write D i s)) = s_evict_error s"
  by (simp_all add: dev_write_eq)

lemma ginv_dev_write [simp]: "ginv q (snd (dev_write D i s)) ch lru fl = ginv q s ch lru fl"
  by (simp add: dev_write_eq)

text \<open>The four ways through \<open>evict_entry\<close>.\<close>

lemma evict_entry_empty:
  "s_lru_tail s = None \<Longrightarrow> evict_entry D s = Some (None, s\<lparr>s_evict_error := RES_PARERR\<rparr>)"
  by (simp add: evict_entry_def)

lemma evict_entry_clean:
  "s_lru_tail s = Some e \<Longrightarrow> \<not> (valid (s_cache s e) \<and> dirty (s_cache s e)) \<Longrightarrow>
   evict_entry D s = reclaim e s"
  by (auto simp: evict_entry_def)

lemma evict_entry_fail:
  "s_lru_tail s = Some e \<Longrightarrow> valid (s_cache s e) \<Longrightarrow> dirty (s_cache s e) \<Longrightarrow>
   fst (dev_write D e s) \<noteq> RES_OK \<Longrightarrow>
   evict_entry D s = Some (None, (snd (dev_write D e s))\<lparr>s_evict_error := fst (dev_write D e s)\<rparr>)"
  by (cases "dev_write D e s") (simp add: evict_entry_def Let_def)

lemma evict_entry_wrote:
  "s_lru_tail s = Some e \<Longrightarrow> valid (s_cache s e) \<Longrightarrow> dirty (s_cache s e) \<Longrightarrow>
   fst (dev_write D e s) = RES_OK \<Longrightarrow>
   evict_entry D s = reclaim e ((snd (dev_write D e s))\<lparr>s_evict_error := RES_OK\<rparr>)"
  by (cases "dev_write D e s") (simp add: evict_entry_def Let_def)

lemma keeps_reclaim:
  fixes s :: "'d state"
  assumes "ginv q s ch lru fl" "e \<in> set lru" "reclaim e s = Some (r, s')"
  shows "keeps s s'"
proof -
  from reclaim_ok[OF assms(1,2)] assms(3) obtain as where "s' = reclaimed as e s" by auto
  then show ?thesis by (simp add: keeps_def reclaimed_fields)
qed

lemma get_entry_inv:
  fixes s :: "'d state"
  assumes g: "ginv None s ch lru fl"
  shows "\<exists>r s'. get_entry D s = Some (r, s') \<and> keeps s s' \<and>
           (case r of
              None \<Rightarrow> ginv None s' ch lru fl
            | Some f \<Rightarrow> \<exists>ch' lru' fl'. ginv None s' ch' lru' fl' \<and> f < CACHE_SIZE \<and>
                          f \<notin> set lru' \<and> f \<notin> set fl' \<and> \<not> valid (s_cache s' f) \<and>
                          \<not> dirty (s_cache s' f))"
proof (cases fl)
  case (Cons x fl')
  note fg = free_get_ok[OF g[unfolded Cons]]
  let ?s = "s\<lparr>s_free_head := hash_next (s_cache s x)\<rparr>"
  have nd: "\<not> dirty (s_cache s x)"
    using ginvD(5)[OF g] fg(3,6) by (auto simp: vd_ok_def)
  have "get_entry D s = Some (Some x, ?s)" by (simp add: get_entry_def fg(1))
  moreover have "keeps s ?s" by (simp add: keeps_def)
  ultimately show ?thesis using fg(2-6) nd by auto
next
  case Nil
  note p = ginvD[OF g]
  from p(3) Nil have fh: "s_free_head s = None" by (simp add: free_ok_def)
  then have ge: "get_entry D s = evict_entry D s" by (simp add: get_entry_def free_get_none)
  show ?thesis
  proof (cases lru rule: rev_cases)
    case Nil
    then have "s_lru_tail s = None" using lru_ok_tail[OF p(2)] by simp
    then have "evict_entry D s = Some (None, s\<lparr>s_evict_error := RES_PARERR\<rparr>)"
      by (rule evict_entry_empty)
    then show ?thesis using g by (simp add: ge keeps_def)
  next
    case (snoc lru' e)
    then have tl: "s_lru_tail s = Some e" using lru_ok_tail[OF p(2)] by simp
    have el: "e \<in> set lru" by (simp add: snoc)
    have ec: "e < CACHE_SIZE" using p(4) el unfolding link_ok_def by blast
    have dl: "distinct lru" using p(2) by (simp add: lru_ok_def)
    have after: "\<exists>r s'. reclaim e t = Some (r, s') \<and> keeps s s' \<and>
           (case r of
              None \<Rightarrow> ginv None s' ch lru fl
            | Some f \<Rightarrow> \<exists>ch' lru' fl'. ginv None s' ch' lru' fl' \<and> f < CACHE_SIZE \<and>
                          f \<notin> set lru' \<and> f \<notin> set fl' \<and> \<not> valid (s_cache s' f) \<and>
                          \<not> dirty (s_cache s' f))"
      if t: "ginv None t ch lru fl" and k: "keeps s t" for t :: "'d state"
    proof -
      from reclaim_ok[OF t el] obtain as bs where
        r: "reclaim e t = Some (Some e, reclaimed as e t)"
        and g': "ginv None (reclaimed as e t) (ch(hk t e := as @ bs)) (remove1 e lru) fl"
        by blast
      have "keeps t (reclaimed as e t)" using keeps_reclaim[OF t el r] .
      with k have k': "keeps s (reclaimed as e t)" by (simp add: keeps_def)
      have "e \<notin> set fl" using p(4) el unfolding link_ok_def by blast
      moreover have "e \<notin> set (remove1 e lru)" using dl by simp
      ultimately show ?thesis
        using r g' k' ec by (auto simp: reclaimed_fields)
    qed
    show ?thesis
    proof (cases "valid (s_cache s e) \<and> dirty (s_cache s e)")
      case False
      then have "evict_entry D s = reclaim e s" using tl by (simp add: evict_entry_clean)
      moreover have "keeps s s" by (simp add: keeps_def)
      ultimately show ?thesis using after[OF g] by (simp add: ge)
    next
      case True
      show ?thesis
      proof (cases "fst (dev_write D e s) = RES_OK")
        case False
        with True tl have "evict_entry D s =
            Some (None, (snd (dev_write D e s))\<lparr>s_evict_error := fst (dev_write D e s)\<rparr>)"
          by (simp add: evict_entry_fail)
        then show ?thesis using g by (simp add: ge keeps_def)
      next
        case ok: True
        let ?t = "(snd (dev_write D e s))\<lparr>s_evict_error := RES_OK\<rparr>"
        from True tl ok have "evict_entry D s = reclaim e ?t"
          by (simp add: evict_entry_wrote)
        moreover have "ginv None ?t ch lru fl" using g by simp
        moreover have "keeps s ?t" by (simp add: keeps_def)
        ultimately show ?thesis using after[of ?t] by (simp add: ge)
      qed
    qed
  qed
qed

lemma ginv_lru_only:
  fixes s :: "'d state"
  assumes g: "ginv q s ch lru fl" and o: "lru_only s s'" and l: "lru_ok s' lru'"
    and st: "set lru' = set lru"
  shows "ginv q s' ch lru' fl"
proof -
  note p = ginvD[OF g] and d = lru_onlyD[OF o]
  show ?thesis
  proof (rule ginvI)
    show "hash_ok s' ch"
      using p(1) hash_ok_cong[OF lru_only_HN[OF o] d(7) lru_only_hk[OF o]] by simp
    show "lru_ok s' lru'" by (rule l)
    show "free_ok q s' fl"
      using p(3) free_ok_cong[OF lru_only_HN[OF o] d(9)] by simp
    show "link_ok ch lru' fl" using p(4) st unfolding link_ok_def by auto
    show "vd_ok s' lru' fl" using p(5) st by (simp add: vd_ok_def d)
    show "flag_ok s'" using p(6) by (simp add: flag_ok_def d)
    show "uniq s'" using p(7) by (simp add: uniq_def d)
  qed
qed

lemma lookup_hit:
  assumes g: "ginv q s ch lru fl" and l: "hash_lookup pd sec s = Some (Some i)"
  shows "i \<in> set lru" "i < CACHE_SIZE" "matches s pd sec i" "i \<in> set (ch (hash_key pd sec))"
proof -
  note p = ginvD[OF g]
  from l hash_lookup_ok[OF p(1), of pd sec]
  have f: "find (matches s pd sec) (ch (hash_key pd sec)) = Some i" by simp
  then show m: "matches s pd sec i" and c: "i \<in> set (ch (hash_key pd sec))"
    by (auto simp: find_Some_iff)
  from c show "i \<in> set lru" using p(4) unfolding link_ok_def by blast
  then show "i < CACHE_SIZE" using p(4) unfolding link_ok_def by blast
qed

lemma lookup_miss:
  assumes g: "ginv q s ch lru fl" and l: "hash_lookup pd sec s = Some None"
    and i: "i < CACHE_SIZE"
  shows "\<not> matches s pd sec i"
proof
  assume m: "matches s pd sec i"
  note p = ginvD[OF g]
  from m have "valid (s_cache s i)" by (simp add: matches_def)
  with p(5) i have "i \<in> set lru" by (simp add: vd_ok_def)
  with p(4) obtain h where h: "i \<in> set (ch h)" unfolding link_ok_def by blast
  with hash_ok_mem[OF p(1)] have "hk s i = h" by blast
  moreover from m have "hk s i = hash_key pd sec" by (simp add: matches_def hk_def)
  ultimately have "i \<in> set (ch (hash_key pd sec))" using h by simp
  with m have "find (matches s pd sec) (ch (hash_key pd sec)) \<noteq> None"
    by (auto simp: find_None_iff)
  with l hash_lookup_ok[OF p(1), of pd sec] show False by simp
qed

lemma lookup_total:
  "ginv q s ch lru fl \<Longrightarrow> \<exists>r. hash_lookup pd sec s = Some r"
  using hash_lookup_ok[OF ginvD(1)] by blast

lemma hash_ok_upd_notin:
  assumes ok: "hash_ok s ch" and f: "\<And>h. f \<notin> set (ch h)"
  shows "hash_ok (upd f g s) ch"
  unfolding hash_ok_def
proof (intro conjI allI impI)
  fix h assume h: "h < HASH_SIZE"
  note d = hash_okD[OF ok h]
  show "seg (HN (upd f g s)) (s_hash_table (upd f g s) h) (ch h) None"
    using d f by (simp add: proj_upd seg_upd)
  show "distinct (ch h)" using d by simp
  show "\<forall>i\<in>set (ch h). hk (upd f g s) i = h"
    using d f by (auto simp: proj_upd)
next
  fix h assume "HASH_SIZE \<le> h"
  then show "ch h = []" using ok by (rule hash_ok_out[rotated])
qed

text \<open>A free or reclaimed entry \<open>f\<close> is given a key and put into the index and the LRU list.\<close>

lemma install_ok:
  fixes s :: "'d state"
  assumes g: "ginv q s ch lru fl" and fc: "f < CACHE_SIZE" and fl: "f \<notin> set lru" and ff: "f \<notin> set fl"
    and nm: "\<And>i. i < CACHE_SIZE \<Longrightarrow> \<not> matches s pd sec i"
    and gv: "valid (g (s_cache s f))" and gp: "pdrv (g (s_cache s f)) = pd"
    and gs: "sector (g (s_cache s f)) = sec"
    and b1: "dirty (g (s_cache s f)) \<longrightarrow> b" and b2: "s_dirty_blocks s \<longrightarrow> b"
  shows "ginv q (lru_insert_front f (hash_insert f ((upd f g s)\<lparr>s_dirty_blocks := b\<rparr>)))
           (ch(hash_key pd sec := f # ch (hash_key pd sec))) (f # lru) fl"
proof -
  note p = ginvD[OF g]
  let ?h = "hash_key pd sec"
  let ?t = "(upd f g s)\<lparr>s_dirty_blocks := b\<rparr>"
  let ?u = "hash_insert f ?t"
  let ?r = "lru_insert_front f ?u"
  have nch: "f \<notin> set (ch h)" for h using p(4) fl unfolding link_ok_def by blast
  have hkt: "hk ?t f = ?h" by (simp add: proj_upd gp gs)
  have "hash_ok (upd f g s) ch" by (rule hash_ok_upd_notin[OF p(1) nch])
  then have "hash_ok ?t ch" by (simp add: hash_ok_cong[of ?t "upd f g s"])
  then have hu: "hash_ok ?u (ch(?h := f # ch ?h))"
    using hash_insert_ok[of ?t ch f] nch hkt by simp
  have o: "lru_only ?u ?r" by (rule lru_insert_front_only)
  note d = lru_onlyD[OF o]
  have vr: "valid (s_cache ?r i) = (if i = f then True else valid (s_cache s i))" for i
    by (simp add: d hash_insert_fields gv)
  have dr: "dirty (s_cache ?r i) = (if i = f then dirty (g (s_cache s f)) else dirty (s_cache s i))" for i
    by (simp add: d hash_insert_fields)
  have pr: "pdrv (s_cache ?r i) = (if i = f then pd else pdrv (s_cache s i))" for i
    by (simp add: d hash_insert_fields gp)
  have sr: "sector (s_cache ?r i) = (if i = f then sec else sector (s_cache s i))" for i
    by (simp add: d hash_insert_fields gs)
  have fr: "s_dirty_blocks ?r = b" by (simp add: d hash_insert_fields)
  show ?thesis
  proof (rule ginvI)
    show "hash_ok ?r (ch(?h := f # ch ?h))"
      using hu hash_ok_cong[OF lru_only_HN[OF o] d(7) lru_only_hk[OF o]] by simp
    have "lru_ok ?u lru"
      using p(2) fl by (simp add: lru_ok_def hash_insert_fields proj_upd seg_upd)
    then show "lru_ok ?r (f # lru)" using fl by (rule lru_insert_front_ok)
    show "free_ok q ?r fl"
      using p(3) ff by (simp add: free_ok_def lru_only_HN[OF o] d hash_insert_fields proj_upd seg_upd)
    have mem: "(\<exists>h. i \<in> set ((ch(?h := f # ch ?h)) h)) \<longleftrightarrow> (i = f \<or> (\<exists>h. i \<in> set (ch h)))" for i
    proof
      assume "\<exists>h. i \<in> set ((ch(?h := f # ch ?h)) h)"
      then obtain h where "i \<in> set ((ch(?h := f # ch ?h)) h)" ..
      then show "i = f \<or> (\<exists>h. i \<in> set (ch h))"
        by (cases "h = ?h") auto
    next
      assume "i = f \<or> (\<exists>h. i \<in> set (ch h))"
      then show "\<exists>h. i \<in> set ((ch(?h := f # ch ?h)) h)"
      proof
        assume "i = f"
        then have "i \<in> set ((ch(?h := f # ch ?h)) ?h)" by simp
        then show ?thesis ..
      next
        assume "\<exists>h. i \<in> set (ch h)"
        then obtain h where "i \<in> set (ch h)" ..
        then have "i \<in> set ((ch(?h := f # ch ?h)) h)" by auto
        then show ?thesis ..
      qed
    qed
    show "link_ok (ch(?h := f # ch ?h)) (f # lru) fl"
      using p(4) fc ff unfolding link_ok_def mem by auto
    show "vd_ok ?r (f # lru) fl"
      using p(5) ff unfolding vd_ok_def vr dr by auto
    show "flag_ok ?r"
      using p(6) b1 b2 unfolding flag_ok_def vr dr fr by auto
    show "uniq ?r"
      using p(7) nm unfolding uniq_def vr pr sr matches_def by (auto split: if_splits)
  qed
qed

lemma ginv_touch:
  fixes s :: "'d state"
  assumes g: "ginv q s ch lru fl" and i: "i \<in> set lru"
  shows "ginv q (lru_touch i s) ch (i # remove1 i lru) fl"
proof (rule ginv_lru_only[OF g lru_touch_only])
  show "lru_ok (lru_touch i s) (i # remove1 i lru)"
    by (rule lru_touch_ok[OF ginvD(2)[OF g] i])
  have "distinct lru" using ginvD(2)[OF g] by (simp add: lru_ok_def)
  then show "set (i # remove1 i lru) = set lru" using i by auto
qed

lemma uniq_mono:
  assumes u: "uniq s" and v: "\<And>i. valid (s_cache s' i) \<Longrightarrow> valid (s_cache s i)"
    and k: "\<And>i. sector (s_cache s' i) = sector (s_cache s i)"
      "\<And>i. pdrv (s_cache s' i) = pdrv (s_cache s i)"
  shows "uniq s'"
  unfolding uniq_def
proof (intro allI impI)
  fix i j
  assume "i < CACHE_SIZE" "j < CACHE_SIZE"
    and a: "valid (s_cache s' i) \<and> valid (s_cache s' j) \<and> pdrv (s_cache s' i) = pdrv (s_cache s' j) \<and>
        sector (s_cache s' i) = sector (s_cache s' j)"
  moreover from a have "valid (s_cache s i)" "valid (s_cache s j)" by (blast intro: v)+
  moreover from a have "pdrv (s_cache s i) = pdrv (s_cache s j)" "sector (s_cache s i) = sector (s_cache s j)"
    by (simp_all add: k)
  ultimately show "i = j" using u unfolding uniq_def by blast
qed

lemma ginv_upd_cong:
  assumes "hash_next (f (s_cache s i)) = hash_next (s_cache s i)"
    "lru_next (f (s_cache s i)) = lru_next (s_cache s i)"
    "lru_prev (f (s_cache s i)) = lru_prev (s_cache s i)"
    "valid (f (s_cache s i)) = valid (s_cache s i)"
    "dirty (f (s_cache s i)) = dirty (s_cache s i)"
    "sector (f (s_cache s i)) = sector (s_cache s i)"
    "pdrv (f (s_cache s i)) = pdrv (s_cache s i)"
  shows "ginv q (upd i f s) ch lru fl = ginv q s ch lru fl"
  by (rule ginv_cong) (simp_all add: proj_upd assms)

lemma ginv_clear_dirty:
  assumes g: "ginv q s ch lru fl"
  shows "ginv q (upd i (\<lambda>c. c\<lparr>dirty := False\<rparr>) s) ch lru fl"
proof -
  note p = ginvD[OF g]
  let ?s = "upd i (\<lambda>c. c\<lparr>dirty := False\<rparr>) s"
  show ?thesis
  proof (rule ginvI)
    show "hash_ok ?s ch" using p(1) by (simp add: hash_ok_cong[of ?s s] proj_upd)
    show "lru_ok ?s lru" using p(2) by (simp add: lru_ok_cong[of ?s s] proj_upd)
    show "free_ok q ?s fl" using p(3) by (simp add: free_ok_cong[of ?s s] proj_upd)
    show "link_ok ch lru fl" by (rule p(4))
    show "vd_ok ?s lru fl" using p(5) unfolding vd_ok_def by auto
    show "flag_ok ?s" using p(6) unfolding flag_ok_def by auto
    show "uniq ?s" by (rule uniq_mono[OF p(7)]) (simp_all split: if_splits)
  qed
qed

lemma ginv_invalidate:
  assumes g: "ginv q s ch lru fl" and nd: "\<not> dirty (s_cache s i)"
  shows "ginv q (upd i (\<lambda>c. c\<lparr>valid := False\<rparr>) s) ch lru fl"
proof -
  note p = ginvD[OF g]
  let ?s = "upd i (\<lambda>c. c\<lparr>valid := False\<rparr>) s"
  show ?thesis
  proof (rule ginvI)
    show "hash_ok ?s ch" using p(1) by (simp add: hash_ok_cong[of ?s s] proj_upd)
    show "lru_ok ?s lru" using p(2) by (simp add: lru_ok_cong[of ?s s] proj_upd)
    show "free_ok q ?s fl" using p(3) by (simp add: free_ok_cong[of ?s s] proj_upd)
    show "link_ok ch lru fl" by (rule p(4))
    show "vd_ok ?s lru fl" using p(5) nd unfolding vd_ok_def by auto
    show "flag_ok ?s" using p(6) unfolding flag_ok_def by auto
    show "uniq ?s" by (rule uniq_mono[OF p(7)]) (simp_all split: if_splits)
  qed
qed

lemma ginv_mark_dirty:
  assumes g: "ginv q s ch lru fl" and v: "valid (s_cache s i)"
  shows "ginv q ((upd i (\<lambda>c. c\<lparr>data := b c, dirty := True\<rparr>) s)\<lparr>s_dirty_blocks := True\<rparr>) ch lru fl"
proof -
  note p = ginvD[OF g]
  let ?s = "(upd i (\<lambda>c. c\<lparr>data := b c, dirty := True\<rparr>) s)\<lparr>s_dirty_blocks := True\<rparr>"
  show ?thesis
  proof (rule ginvI)
    show "hash_ok ?s ch" using p(1) by (simp add: hash_ok_cong[of ?s s] proj_upd)
    show "lru_ok ?s lru" using p(2) by (simp add: lru_ok_cong[of ?s s] proj_upd)
    show "free_ok q ?s fl" using p(3) by (simp add: free_ok_cong[of ?s s] proj_upd)
    show "link_ok ch lru fl" by (rule p(4))
    show "vd_ok ?s lru fl" using p(5) v unfolding vd_ok_def by auto
    show "flag_ok ?s" by (simp add: flag_ok_def)
    show "uniq ?s" by (rule uniq_mono[OF p(7)]) (simp_all split: if_splits)
  qed
qed

lemma dev_read_eq:
  "dev_read D pd i sec s =
     (fst (disk_read_no_cache D (dev s) pd (data (s_cache s i)) sec 1),
      (upd i (\<lambda>c. c\<lparr>data := fst (snd (disk_read_no_cache D (dev s) pd (data (s_cache s i)) sec 1))\<rparr>) s)
        \<lparr>dev := snd (snd (disk_read_no_cache D (dev s) pd (data (s_cache s i)) sec 1)),
         io_log := io_log s @
           [DevRead pd sec (fst (disk_read_no_cache D (dev s) pd (data (s_cache s i)) sec 1))]\<rparr>)"
  by (simp add: dev_read_def split: prod.splits)

lemma ginv_dev_read [simp]: "ginv q (snd (dev_read D pd i sec s)) ch lru fl = ginv q s ch lru fl"
  by (simp add: dev_read_eq)

lemma dev_read_fields [simp]:
  "valid (s_cache (snd (dev_read D pd i sec s)) j) = valid (s_cache s j)"
  "dirty (s_cache (snd (dev_read D pd i sec s)) j) = dirty (s_cache s j)"
  "sector (s_cache (snd (dev_read D pd i sec s)) j) = sector (s_cache s j)"
  "pdrv (s_cache (snd (dev_read D pd i sec s)) j) = pdrv (s_cache s j)"
  "s_dirty_blocks (snd (dev_read D pd i sec s)) = s_dirty_blocks s"
  by (simp_all add: dev_read_eq)

lemma matches_keeps: "keeps s s' \<Longrightarrow> matches s' pd sec i \<Longrightarrow> matches s pd sec i"
  by (auto simp: keeps_def matches_def)

lemma read_block_inv:
  fixes s :: "'d state"
  assumes c: "cache_inv s"
  shows "\<exists>r out s'. block_cache_read_block D pd sec od s = Some (r, out, s') \<and> cache_inv s'"
proof -
  from c obtain ch lru fl where g: "ginv None s ch lru fl" by (auto simp: cache_inv_def)
  from lookup_total[OF g] obtain e where l: "hash_lookup pd sec s = Some e" by blast
  show ?thesis
  proof (cases e)
    case (Some i)
    note h = lookup_hit[OF g l[unfolded Some]]
    have "cache_inv (lru_touch i s)"
      using ginv_touch[OF g h(1)] by (auto simp: cache_inv_def)
    then show ?thesis
      by (simp add: block_cache_read_block_def l Some Let_def)
  next
    case None
    from get_entry_inv[OF g, of D] obtain r s1 where
      ge: "get_entry D s = Some (r, s1)" and k: "keeps s s1"
      and cr: "case r of None \<Rightarrow> ginv None s1 ch lru fl
               | Some f \<Rightarrow> \<exists>ch' lru' fl'. ginv None s1 ch' lru' fl' \<and> f < CACHE_SIZE \<and>
                   f \<notin> set lru' \<and> f \<notin> set fl' \<and> \<not> valid (s_cache s1 f) \<and> \<not> dirty (s_cache s1 f)"
      by blast
    show ?thesis
    proof (cases r)
      case None
      with cr have "cache_inv s1" by (auto simp: cache_inv_def)
      then show ?thesis
        using l \<open>e = None\<close> ge None by (simp add: block_cache_read_block_def)
    next
      case (Some f)
      with cr obtain ch' lru' fl' where g1: "ginv None s1 ch' lru' fl'" and fc: "f < CACHE_SIZE"
        and f1: "f \<notin> set lru'" and f2: "f \<notin> set fl'"
        by auto
      let ?s2 = "snd (dev_read D pd f sec s1)"
      let ?g = "\<lambda>c. c\<lparr>sector := sec, pdrv := pd, dirty := False, valid := True\<rparr>"
      have g2: "ginv None ?s2 ch' lru' fl'" using g1 by simp
      have nm: "\<not> matches ?s2 pd sec i" if "i < CACHE_SIZE" for i
      proof
        assume "matches ?s2 pd sec i"
        then have "matches s1 pd sec i" by (simp add: matches_def)
        then have "matches s pd sec i" by (rule matches_keeps[OF k])
        with lookup_miss[OF g l[unfolded \<open>e = None\<close>] that] show False by simp
      qed
      have eq: "(upd f ?g ?s2)\<lparr>s_dirty_blocks := s_dirty_blocks ?s2\<rparr> = upd f ?g ?s2"
        by (simp add: upd_def)
      have "ginv None (lru_insert_front f (hash_insert f ((upd f ?g ?s2)\<lparr>s_dirty_blocks := s_dirty_blocks ?s2\<rparr>)))
              (ch'(hash_key pd sec := f # ch' (hash_key pd sec))) (f # lru') fl'"
        by (rule install_ok[OF g2 fc f1 f2 nm]) simp_all
      then have "ginv None (lru_insert_front f (hash_insert f (upd f ?g ?s2)))
              (ch'(hash_key pd sec := f # ch' (hash_key pd sec))) (f # lru') fl'"
        by (simp only: eq)
      then have "cache_inv (lru_insert_front f (hash_insert f (upd f ?g ?s2)))"
        unfolding cache_inv_def by blast
      moreover have "cache_inv ?s2" using g2 by (auto simp: cache_inv_def)
      ultimately show ?thesis
        using l \<open>e = None\<close> ge Some
        by (cases "dev_read D pd f sec s1") (simp add: block_cache_read_block_def Let_def)
    qed
  qed
qed

lemma write_block_inv:
  fixes s :: "'d state"
  assumes c: "cache_inv s"
  shows "\<exists>r s'. block_cache_write_block D pd sec buf s = Some (r, s') \<and> cache_inv s'"
proof -
  from c obtain ch lru fl where g: "ginv None s ch lru fl" by (auto simp: cache_inv_def)
  from lookup_total[OF g] obtain e where l: "hash_lookup pd sec s = Some e" by blast
  show ?thesis
  proof (cases e)
    case (Some i)
    note h = lookup_hit[OF g l[unfolded Some]]
    let ?t = "(upd i (\<lambda>c. c\<lparr>data := memcpy (data c) buf, dirty := True\<rparr>) s)\<lparr>s_dirty_blocks := True\<rparr>"
    have "ginv None ?t ch lru fl"
      using h(3) by (intro ginv_mark_dirty[OF g]) (simp add: matches_def)
    from ginv_touch[OF this h(1)] have "cache_inv (lru_touch i ?t)"
      by (auto simp: cache_inv_def)
    then show ?thesis
      by (simp add: block_cache_write_block_def l Some Let_def)
  next
    case None
    from get_entry_inv[OF g, of D] obtain r s1 where
      ge: "get_entry D s = Some (r, s1)" and k: "keeps s s1"
      and cr: "case r of None \<Rightarrow> ginv None s1 ch lru fl
               | Some f \<Rightarrow> \<exists>ch' lru' fl'. ginv None s1 ch' lru' fl' \<and> f < CACHE_SIZE \<and>
                   f \<notin> set lru' \<and> f \<notin> set fl' \<and> \<not> valid (s_cache s1 f) \<and> \<not> dirty (s_cache s1 f)"
      by blast
    show ?thesis
    proof (cases r)
      case None
      with cr have "cache_inv s1" by (auto simp: cache_inv_def)
      then show ?thesis
        using l \<open>e = None\<close> ge None by (simp add: block_cache_write_block_def)
    next
      case (Some f)
      with cr obtain ch' lru' fl' where g1: "ginv None s1 ch' lru' fl'" and fc: "f < CACHE_SIZE"
        and f1: "f \<notin> set lru'" and f2: "f \<notin> set fl'"
        by auto
      let ?g = "\<lambda>c. c\<lparr>data := memcpy (data c) buf, sector := sec, pdrv := pd, dirty := True,
                      valid := True\<rparr>"
      have nm: "\<not> matches s1 pd sec i" if "i < CACHE_SIZE" for i
        using lookup_miss[OF g l[unfolded \<open>e = None\<close>] that] matches_keeps[OF k] by blast
      have "ginv None (lru_insert_front f (hash_insert f ((upd f ?g s1)\<lparr>s_dirty_blocks := True\<rparr>)))
              (ch'(hash_key pd sec := f # ch' (hash_key pd sec))) (f # lru') fl'"
        by (rule install_ok[OF g1 fc f1 f2 nm]) simp_all
      then have "cache_inv (lru_insert_front f (hash_insert f ((upd f ?g s1)\<lparr>s_dirty_blocks := True\<rparr>)))"
        by (auto simp: cache_inv_def)
      then show ?thesis
        using l \<open>e = None\<close> ge Some by (simp add: block_cache_write_block_def Let_def)
    qed
  qed
qed

lemma clean_except_step:
  assumes "clean_except s (i # is)"
    and "\<And>j. j \<noteq> i \<Longrightarrow> valid (s_cache s' j) = valid (s_cache s j) \<and> dirty (s_cache s' j) = dirty (s_cache s j)"
    and "\<not> (valid (s_cache s' i) \<and> dirty (s_cache s' i))"
  shows "clean_except s' is"
  unfolding clean_except_def
proof (intro allI impI)
  fix j assume j: "j < CACHE_SIZE" "j \<notin> set is"
  show "\<not> (valid (s_cache s' j) \<and> dirty (s_cache s' j))"
  proof (cases "j = i")
    case True
    then show ?thesis using assms(3) by simp
  next
    case False
    with j assms(1) have "\<not> (valid (s_cache s j) \<and> dirty (s_cache s j))"
      by (simp add: clean_except_def)
    with assms(2)[OF False] show ?thesis by simp
  qed
qed

lemma ginv_not_dirty:
  "ginv q s ch lru fl \<Longrightarrow> i < CACHE_SIZE \<Longrightarrow> \<not> (valid (s_cache s i) \<and> dirty (s_cache s i)) \<Longrightarrow>
   \<not> dirty (s_cache s i)"
  using ginvD(5)[of q s ch lru fl] unfolding vd_ok_def by blast

lemma flush_loop_inv:
  fixes s :: "'d state"
  assumes "ginv q s ch lru fl" "\<And>i. i \<in> set is \<Longrightarrow> i < CACHE_SIZE" "clean_except s is"
  shows "ginv q (snd (flush_loop D fa ia is s)) ch lru fl"
  using assms
proof (induction "is" arbitrary: s)
  case Nil
  note p = ginvD[OF Nil(1)]
  let ?s = "s\<lparr>s_dirty_blocks := False\<rparr>"
  have "ginv q ?s ch lru fl"
  proof (rule ginvI)
    show "hash_ok ?s ch" using p(1) by (simp add: hash_ok_cong[of ?s s])
    show "lru_ok ?s lru" using p(2) by (simp add: lru_ok_cong[of ?s s])
    show "free_ok q ?s fl" using p(3) by (simp add: free_ok_cong[of ?s s])
    show "link_ok ch lru fl" by (rule p(4))
    show "vd_ok ?s lru fl" using p(5) unfolding vd_ok_def by auto
    show "flag_ok ?s" using Nil(3) unfolding flag_ok_def clean_except_def by auto
    show "uniq ?s" by (rule uniq_mono[OF p(7)]) simp_all
  qed
  then show ?case by simp
next
  case (Cons i "is")
  have ic: "i < CACHE_SIZE" and isc: "\<And>j. j \<in> set is \<Longrightarrow> j < CACHE_SIZE"
    using Cons.prems(2) by auto
  note g = Cons.prems(1)
  show ?case
  proof (cases "valid (s_cache s i) \<and> dirty (s_cache s i)")
    case False
    let ?s3 = "if ia then upd i (\<lambda>c. c\<lparr>valid := False\<rparr>) s else s"
    have nd: "\<not> dirty (s_cache s i)" by (rule ginv_not_dirty[OF g ic False])
    have g3: "ginv q ?s3 ch lru fl" using g ginv_invalidate[OF g nd] by simp
    have c3: "clean_except ?s3 is"
      by (rule clean_except_step[OF Cons.prems(3)]) (use False in auto)
    have "flush_loop D fa ia (i # is) s = flush_loop D fa ia is ?s3"
      using False by auto
    then show ?thesis using Cons.IH[OF g3 isc c3] by simp
  next
    case True
    let ?s1 = "snd (dev_write D i s)"
    let ?s2 = "upd i (\<lambda>c. c\<lparr>dirty := False\<rparr>) ?s1"
    let ?s3 = "if ia then upd i (\<lambda>c. c\<lparr>valid := False\<rparr>) ?s2 else ?s2"
    have g1: "ginv q ?s1 ch lru fl" using g by simp
    have g2: "ginv q ?s2 ch lru fl" by (rule ginv_clear_dirty[OF g1])
    have g3: "ginv q ?s3 ch lru fl" using g2 ginv_invalidate[OF g2] by simp
    have c3: "clean_except ?s3 is"
      by (rule clean_except_step[OF Cons.prems(3)]) auto
    have "flush_loop D fa ia (i # is) s =
            (if fst (dev_write D i s) \<noteq> RES_OK then (fst (dev_write D i s), ?s1)
             else if \<not> fa then (RES_OK, ?s2) else flush_loop D fa ia is ?s3)"
      using True by (cases "dev_write D i s") (simp add: Let_def)
    then show ?thesis using g1 g2 Cons.IH[OF g3 isc c3] by (cases fa; cases ia; simp)
  qed
qed

lemma flush_inv:
  fixes s :: "'d state"
  assumes c: "cache_inv s"
  shows "cache_inv (snd (block_cache_flush D fa ia s))"
proof (cases "s_dirty_blocks s")
  case False
  with c show ?thesis by (simp add: block_cache_flush_def)
next
  case True
  from c obtain ch lru fl where g: "ginv None s ch lru fl" by (auto simp: cache_inv_def)
  have "ginv None (snd (flush_loop D fa ia [0..<CACHE_SIZE] s)) ch lru fl"
    by (rule flush_loop_inv[OF g]) (simp_all add: clean_except_def)
  then show ?thesis using True by (auto simp: block_cache_flush_def cache_inv_def)
qed

lemma init_fold:
  fixes s :: "'d state"
  assumes z: "\<And>i. i < CACHE_SIZE \<Longrightarrow> s_cache s i = zero_entry" and n: "n \<le> CACHE_SIZE"
  shows "fold (\<lambda>i t. if \<not> valid (s_cache t i) then free_insert i t else t) [0..<n] s =
           s\<lparr>s_cache := (\<lambda>i. if i < n then init_entry (s_free_head s) i else s_cache s i),
             s_free_head := (if n = 0 then s_free_head s else Some (n - 1))\<rparr>"
  using n
proof (induction n)
  case 0
  then show ?case by simp
next
  case (Suc n)
  let ?t = "s\<lparr>s_cache := (\<lambda>i. if i < n then init_entry (s_free_head s) i else s_cache s i),
             s_free_head := (if n = 0 then s_free_head s else Some (n - 1))\<rparr>"
  from Suc have f: "fold (\<lambda>i t. if \<not> valid (s_cache t i) then free_insert i t else t) [0..<n] s = ?t"
    by simp
  have v: "\<not> valid (s_cache ?t n)" using z[of n] Suc.prems by (simp add: zero_entry_def)
  have c: "(s_cache ?t)(n := (s_cache ?t n)\<lparr>valid := False, hash_next := s_free_head ?t\<rparr>) =
           (\<lambda>i. if i < Suc n then init_entry (s_free_head s) i else s_cache s i)"
    using z[of n] Suc.prems by (auto simp: fun_eq_iff init_entry_def zero_entry_def)
  have "free_insert n ?t =
          s\<lparr>s_cache := (\<lambda>i. if i < Suc n then init_entry (s_free_head s) i else s_cache s i),
            s_free_head := Some n\<rparr>"
    unfolding free_insert_def upd_def c[symmetric] by simp
  then show ?case using v by (simp add: f)
qed

lemma block_cache_init_eq:
  "block_cache_init s =
     s\<lparr>s_cache := (\<lambda>i. if i < CACHE_SIZE then init_entry (s_free_head s) i else s_cache s i),
       s_hash_table := (\<lambda>h. if h < HASH_SIZE then None else s_hash_table s h),
       s_lru_head := None, s_lru_tail := None, s_free_head := Some (CACHE_SIZE - 1)\<rparr>"
proof -
  let ?s3 = "s\<lparr>s_cache := (\<lambda>i. if i < CACHE_SIZE then zero_entry else s_cache s i),
       s_hash_table := (\<lambda>h. if h < HASH_SIZE then None else s_hash_table s h),
       s_lru_head := None, s_lru_tail := None\<rparr>"
  have "block_cache_init s =
          fold (\<lambda>i t. if \<not> valid (s_cache t i) then free_insert i t else t) [0..<CACHE_SIZE] ?s3"
    by (simp add: block_cache_init_def Let_def cong: if_cong)
  also have "\<dots> = ?s3\<lparr>s_cache := (\<lambda>i. if i < CACHE_SIZE then init_entry (s_free_head ?s3) i
                                       else s_cache ?s3 i),
             s_free_head := (if CACHE_SIZE = 0 then s_free_head ?s3 else Some (CACHE_SIZE - 1))\<rparr>"
    by (rule init_fold) simp_all
  also have "\<dots> = s\<lparr>s_cache := (\<lambda>i. if i < CACHE_SIZE then init_entry (s_free_head s) i else s_cache s i),
       s_hash_table := (\<lambda>h. if h < HASH_SIZE then None else s_hash_table s h),
       s_lru_head := None, s_lru_tail := None, s_free_head := Some (CACHE_SIZE - 1)\<rparr>"
    by (simp add: CACHE_SIZE_def cong: if_cong)
  finally show ?thesis .
qed

lemma seg_down:
  assumes "\<And>i. i < n \<Longrightarrow> nx i = (if i = 0 then F else Some (i - 1))"
  shows "seg nx (if n = 0 then F else Some (n - 1)) (rev [0..<n]) F"
  using assms
proof (induction n)
  case 0
  then show ?case by simp
next
  case (Suc n)
  have "seg nx (if n = 0 then F else Some (n - 1)) (rev [0..<n]) F"
    by (rule Suc.IH) (simp add: Suc.prems)
  moreover have "nx n = (if n = 0 then F else Some (n - 1))" by (rule Suc.prems) simp
  ultimately show ?case by simp
qed

lemma init_ginv:
  fixes s :: "'d state"
  shows "ginv (s_free_head s) (block_cache_init s) (\<lambda>_. []) [] (rev [0..<CACHE_SIZE])"
proof -
  let ?s = "block_cache_init s"
  have c: "s_cache ?s i = init_entry (s_free_head s) i" if "i < CACHE_SIZE" for i
    using that by (simp add: block_cache_init_eq)
  have v: "\<not> valid (s_cache ?s i)" "\<not> dirty (s_cache ?s i)" if "i < CACHE_SIZE" for i
    using c[OF that] by (simp_all add: init_entry_def zero_entry_def)
  have hn: "HN ?s i = (if i = 0 then s_free_head s else Some (i - 1))" if "i < CACHE_SIZE" for i
    using c[OF that] by (simp add: HN_def init_entry_def)
  have fh: "s_free_head ?s = (if CACHE_SIZE = 0 then s_free_head s else Some (CACHE_SIZE - 1))"
    by (simp add: block_cache_init_eq CACHE_SIZE_def)
  show ?thesis
  proof (rule ginvI)
    show "hash_ok ?s (\<lambda>_. [])" by (simp add: hash_ok_def block_cache_init_eq)
    show "lru_ok ?s []" by (simp add: lru_ok_def block_cache_init_eq)
    show "free_ok (s_free_head s) ?s (rev [0..<CACHE_SIZE])"
      unfolding free_ok_def fh using seg_down[of CACHE_SIZE "HN ?s" "s_free_head s"] hn by simp
    show "link_ok (\<lambda>_. []) [] (rev [0..<CACHE_SIZE])" by (simp add: link_ok_def)
    show "vd_ok ?s [] (rev [0..<CACHE_SIZE])" using v by (simp add: vd_ok_def)
    show "flag_ok ?s" using v by (simp add: flag_ok_def)
    show "uniq ?s" using v by (simp add: uniq_def)
  qed
qed

lemma init_boot_inv: "cache_inv (block_cache_init (boot d))"
  using init_ginv[of "boot d"] unfolding cache_inv_def by (auto simp: boot_def)

lemma exec_inv:
  fixes s :: "'d state"
  assumes "cache_inv s" "x \<noteq> Init"
  shows "\<exists>s'. exec D x s = Some s' \<and> cache_inv s'"
proof (cases x)
  case Init
  with assms show ?thesis by simp
next
  case (Read pd sec od)
  from read_block_inv[OF assms(1), of D pd sec od] show ?thesis by (auto simp: Read)
next
  case (Write pd sec buf)
  from write_block_inv[OF assms(1), of D pd sec buf] show ?thesis by (auto simp: Write)
next
  case (Flush fa ia)
  from flush_inv[OF assms(1), of D fa ia] show ?thesis by (simp add: Flush)
qed

lemma run_inv:
  fixes s :: "'d state"
  shows "cache_inv s \<Longrightarrow> Init \<notin> set ops \<Longrightarrow> \<exists>s'. run D ops s = Some s' \<and> cache_inv s'"
proof (induction ops arbitrary: s)
  case Nil
  then show ?case by simp
next
  case (Cons x xs)
  from Cons.prems have "x \<noteq> Init" by auto
  from exec_inv[OF Cons.prems(1) this, of D] obtain s1 where
    e: "exec D x s = Some s1" and c: "cache_inv s1" by blast
  from Cons.IH[OF c] Cons.prems(2) obtain s' where "run D xs s1 = Some s'" "cache_inv s'" by auto
  then show ?case by (simp add: e)
qed

lemma nomore_refl: "nomore s s"
  by (simp add: nomore_def)

lemma nomore_trans: "nomore s s' \<Longrightarrow> nomore s' s'' \<Longrightarrow> nomore s s''"
  unfolding nomore_def by blast

lemma nomore_flag_ok: "flag_ok s \<Longrightarrow> nomore s s' \<Longrightarrow> flag_ok s'"
  unfolding flag_ok_def nomore_def by blast

lemma lru_only_nomore: "lru_only s s' \<Longrightarrow> nomore s s'"
  by (simp add: lru_only_def nomore_def)

lemma hash_remove_loop_nomore:
  assumes "hash_remove_loop e pp s = Some s'"
  shows "nomore s s'"
proof (rule hash_remove_loop.raw_induct[where P = "\<lambda>e pp s s'. nomore s s'", OF _ assms])
  fix loop :: "nat \<Rightarrow> link \<Rightarrow> 'a state \<Rightarrow> 'a state option" and e pp s s'
  assume ih: "\<And>e pp s s'. loop e pp s = Some s' \<Longrightarrow> nomore s s'"
    and st: "(case deref s pp of None \<Rightarrow> Some s
             | Some i \<Rightarrow>
                 if i = e
                 then let s1 = assign pp (hash_next (s_cache s e)) s
                      in Some (upd e (\<lambda>c. c\<lparr>hash_next := None\<rparr>) s1)
                 else loop e (Next i) s) = Some s'"
  show "nomore s s'"
  proof (cases "deref s pp")
    case None
    with st show ?thesis by (simp add: nomore_def)
  next
    case (Some i)
    show ?thesis
    proof (cases "i = e")
      case True
      with st Some have "s' = upd e (\<lambda>c. c\<lparr>hash_next := None\<rparr>) (assign pp (hash_next (s_cache s e)) s)"
        by (simp add: Let_def)
      then show ?thesis by (cases pp) (simp_all add: nomore_def assign_def)
    next
      case False
      with st Some have "loop e (Next i) s = Some s'" by simp
      then show ?thesis by (rule ih)
    qed
  qed
qed

lemma reclaim_nomore:
  assumes "reclaim e s = Some (r, s')"
  shows "nomore s s'"
proof -
  from assms obtain s1 where h: "hash_remove e s = Some s1"
    and s': "s' = upd e (\<lambda>c. c\<lparr>valid := False, dirty := False\<rparr>) (lru_remove e s1)"
    by (auto simp: reclaim_def Let_def split: bind_splits)
  have 1: "nomore s s1" using h unfolding hash_remove_def by (rule hash_remove_loop_nomore)
  have 2: "nomore s1 (lru_remove e s1)" by (rule lru_only_nomore[OF lru_remove_only])
  have 3: "nomore (lru_remove e s1) s'" by (simp add: s' nomore_def)
  from 1 2 3 show ?thesis by (blast intro: nomore_trans)
qed

lemma evict_entry_nomore:
  assumes "evict_entry D s = Some (r, s')"
  shows "nomore s s'"
proof (cases "s_lru_tail s")
  case None
  with assms show ?thesis by (auto simp: evict_entry_def nomore_def)
next
  case (Some e)
  show ?thesis
  proof (cases "valid (s_cache s e) \<and> dirty (s_cache s e)")
    case False
    with assms Some have "reclaim e s = Some (r, s')" by (simp add: evict_entry_clean)
    then show ?thesis by (rule reclaim_nomore)
  next
    case True
    show ?thesis
    proof (cases "fst (dev_write D e s) = RES_OK")
      case False
      with assms Some True show ?thesis by (auto simp: evict_entry_fail nomore_def)
    next
      case ok: True
      let ?t = "(snd (dev_write D e s))\<lparr>s_evict_error := RES_OK\<rparr>"
      from assms Some True ok have "reclaim e ?t = Some (r, s')" by (simp add: evict_entry_wrote)
      then have "nomore ?t s'" by (rule reclaim_nomore)
      moreover have "nomore s ?t" by (simp add: nomore_def)
      ultimately show ?thesis by (blast intro: nomore_trans)
    qed
  qed
qed

lemma get_entry_nomore:
  assumes "get_entry D s = Some (r, s')"
  shows "nomore s s'"
proof (cases "s_free_head s")
  case None
  with assms have "evict_entry D s = Some (r, s')" by (simp add: get_entry_def free_get_none)
  then show ?thesis by (rule evict_entry_nomore)
next
  case (Some x)
  with assms show ?thesis by (auto simp: get_entry_def free_get_some nomore_def)
qed

lemma read_block_flag_ok:
  assumes f: "flag_ok s" and r: "block_cache_read_block D pd sec od s = Some (res, out, s')"
  shows "flag_ok s'"
proof -
  from r obtain e where l: "hash_lookup pd sec s = Some e"
    by (auto simp: block_cache_read_block_def split: bind_splits)
  show ?thesis
  proof (cases e)
    case (Some i)
    with r l have "s' = lru_touch i s" by (auto simp: block_cache_read_block_def Let_def)
    then show ?thesis using nomore_flag_ok[OF f lru_only_nomore[OF lru_touch_only]] by simp
  next
    case None
    with r l obtain fe s1 where ge: "get_entry D s = Some (fe, s1)"
      by (auto simp: block_cache_read_block_def split: bind_splits)
    have f1: "flag_ok s1" by (rule nomore_flag_ok[OF f get_entry_nomore[OF ge]])
    show ?thesis
    proof (cases fe)
      case None
      with r l \<open>e = None\<close> ge have "s' = s1" by (simp add: block_cache_read_block_def)
      with f1 show ?thesis by simp
    next
      case (Some x)
      let ?s2 = "snd (dev_read D pd x sec s1)"
      let ?s5 = "lru_insert_front x (hash_insert x
                   (upd x (\<lambda>c. c\<lparr>sector := sec, pdrv := pd, dirty := False, valid := True\<rparr>) ?s2))"
      have "nomore s1 ?s2" by (simp add: nomore_def)
      moreover have "nomore ?s2 ?s5"
        using lru_onlyD[OF lru_insert_front_only, of x "hash_insert x
                   (upd x (\<lambda>c. c\<lparr>sector := sec, pdrv := pd, dirty := False, valid := True\<rparr>) ?s2)"]
        by (simp add: nomore_def hash_insert_fields)
      ultimately have "flag_ok ?s2" "flag_ok ?s5"
        using f1 by (blast intro: nomore_flag_ok nomore_trans)+
      moreover have "s' = ?s2 \<or> s' = ?s5"
        using r l \<open>e = None\<close> ge Some
        by (cases "dev_read D pd x sec s1")
           (auto simp: block_cache_read_block_def Let_def split: if_splits)
      ultimately show ?thesis by blast
    qed
  qed
qed

lemma write_block_flag_ok:
  assumes f: "flag_ok s" and r: "block_cache_write_block D pd sec buf s = Some (res, s')"
  shows "flag_ok s'"
proof -
  from r obtain e where l: "hash_lookup pd sec s = Some e"
    by (auto simp: block_cache_write_block_def split: bind_splits)
  show ?thesis
  proof (cases e)
    case (Some i)
    let ?t = "(upd i (\<lambda>c. c\<lparr>data := memcpy (data c) buf, dirty := True\<rparr>) s)\<lparr>s_dirty_blocks := True\<rparr>"
    from Some r l have "s' = lru_touch i ?t" by (auto simp: block_cache_write_block_def Let_def)
    moreover have "flag_ok ?t" by (simp add: flag_ok_def)
    ultimately show ?thesis using nomore_flag_ok[OF _ lru_only_nomore[OF lru_touch_only]] by simp
  next
    case None
    with r l obtain fe s1 where ge: "get_entry D s = Some (fe, s1)"
      by (auto simp: block_cache_write_block_def split: bind_splits)
    have f1: "flag_ok s1" by (rule nomore_flag_ok[OF f get_entry_nomore[OF ge]])
    show ?thesis
    proof (cases fe)
      case None
      with r l \<open>e = None\<close> ge have "s' = s1" by (simp add: block_cache_write_block_def)
      with f1 show ?thesis by simp
    next
      case (Some x)
      let ?u = "hash_insert x ((upd x (\<lambda>c. c\<lparr>data := memcpy (data c) buf, sector := sec,
                   pdrv := pd, dirty := True, valid := True\<rparr>) s1)\<lparr>s_dirty_blocks := True\<rparr>)"
      from r l \<open>e = None\<close> ge Some have "s' = lru_insert_front x ?u"
        by (simp add: block_cache_write_block_def Let_def)
      moreover have "s_dirty_blocks (lru_insert_front x ?u) = True"
        using lru_onlyD(8)[OF lru_insert_front_only, of x ?u] by (simp add: hash_insert_fields)
      ultimately show ?thesis by (simp add: flag_ok_def)
    qed
  qed
qed

lemma flush_loop_flag_ok:
  "s_dirty_blocks s \<Longrightarrow> clean_except s is \<Longrightarrow> flag_ok (snd (flush_loop D fa ia is s))"
proof (induction "is" arbitrary: s)
  case Nil
  then show ?case by (simp add: flag_ok_def clean_except_def)
next
  case (Cons i "is")
  show ?case
  proof (cases "valid (s_cache s i) \<and> dirty (s_cache s i)")
    case False
    let ?s3 = "if ia then upd i (\<lambda>c. c\<lparr>valid := False\<rparr>) s else s"
    have c3: "clean_except ?s3 is"
      by (rule clean_except_step[OF Cons.prems(2)]) (use False in auto)
    have "flush_loop D fa ia (i # is) s = flush_loop D fa ia is ?s3"
      using False by auto
    then show ?thesis using Cons.IH[OF _ c3] Cons.prems(1) by simp
  next
    case True
    let ?s1 = "snd (dev_write D i s)"
    let ?s2 = "upd i (\<lambda>c. c\<lparr>dirty := False\<rparr>) ?s1"
    let ?s3 = "if ia then upd i (\<lambda>c. c\<lparr>valid := False\<rparr>) ?s2 else ?s2"
    have c3: "clean_except ?s3 is"
      by (rule clean_except_step[OF Cons.prems(2)]) auto
    have e: "flush_loop D fa ia (i # is) s =
            (if fst (dev_write D i s) \<noteq> RES_OK then (fst (dev_write D i s), ?s1)
             else if \<not> fa then (RES_OK, ?s2) else flush_loop D fa ia is ?s3)"
      using True by (cases "dev_write D i s") (simp add: Let_def)
    have "flag_ok ?s1" "flag_ok ?s2" using Cons.prems(1) by (simp_all add: flag_ok_def)
    moreover have "flag_ok (snd (flush_loop D fa ia is ?s3))"
      by (rule Cons.IH[OF _ c3]) (simp add: Cons.prems(1))
    ultimately show ?thesis unfolding e by (cases fa; cases ia; simp)
  qed
qed

lemma flush_flag_ok: "flag_ok s \<Longrightarrow> flag_ok (snd (block_cache_flush D fa ia s))"
  using flush_loop_flag_ok[of s "[0..<CACHE_SIZE]" D fa ia]
  by (simp add: block_cache_flush_def clean_except_def)

lemma init_flag_ok: "flag_ok (block_cache_init s)"
  by (simp add: flag_ok_def block_cache_init_eq init_entry_def zero_entry_def)

text \<open>
  C10. Every public function keeps: if \<open>s_dirty_blocks\<close> is false, no valid entry of the
  pool is dirty. This holds from every state, also one whose lists are not well formed,
  and so when \<open>block_cache_flush\<close> returns at once on a false flag, no entry needs
  write-back.
\<close>

theorem C10_dirty_flag_invariant:
  assumes "flag_ok s" and "exec D x s = Some s'"
  shows "flag_ok s' \<and> (\<not> s_dirty_blocks s' \<longrightarrow>
           block_cache_flush D fa ia s' = (RES_OK, s') \<and>
           (\<forall>i<CACHE_SIZE. valid (s_cache s' i) \<longrightarrow> \<not> dirty (s_cache s' i)))"
proof -
  have f: "flag_ok s'"
  proof (cases x)
    case Init
    with assms(2) show ?thesis by (auto simp: init_flag_ok)
  next
    case (Read pd sec od)
    with assms(2) obtain res out where "block_cache_read_block D pd sec od s = Some (res, out, s')"
      by auto
    then show ?thesis by (rule read_block_flag_ok[OF assms(1)])
  next
    case (Write pd sec buf)
    with assms(2) obtain res where "block_cache_write_block D pd sec buf s = Some (res, s')"
      by auto
    then show ?thesis by (rule write_block_flag_ok[OF assms(1)])
  next
    case (Flush fa ia)
    with assms(2) show ?thesis using flush_flag_ok[OF assms(1)] by auto
  qed
  then show ?thesis unfolding flag_ok_def by (auto simp: block_cache_flush_def)
qed

lemma inval_Nil [simp]: "inval ia [] s = s"
  by (simp add: inval_def)

lemma inval_Cons:
  "inval ia as (if ia then upd i (\<lambda>c. c\<lparr>valid := False\<rparr>) s else s) = inval ia (i # as) s"
  by (auto simp: inval_def upd_def fun_eq_iff intro!: arg_cong2[where f = "\<lambda>f s. s\<lparr>s_cache := f\<rparr>"])

lemma flush_loop_skip:
  "(\<And>i. i \<in> set as \<Longrightarrow> \<not> needs_wb s i) \<Longrightarrow>
   flush_loop D fa ia (as @ bs) s = flush_loop D fa ia bs (inval ia as s)"
proof (induction as arbitrary: s)
  case Nil
  then show ?case by simp
next
  case (Cons i as)
  let ?s3 = "if ia then upd i (\<lambda>c. c\<lparr>valid := False\<rparr>) s else s"
  have n: "\<not> needs_wb s i" by (rule Cons.prems) simp
  have "\<not> needs_wb ?s3 j" if "j \<in> set as" for j
    using Cons.prems[of j] that by (auto simp: needs_wb_def)
  from Cons.IH[OF this] have "flush_loop D fa ia (as @ bs) ?s3 = flush_loop D fa ia bs (inval ia as ?s3)"
    by blast
  moreover have "flush_loop D fa ia ((i # as) @ bs) s = flush_loop D fa ia (as @ bs) ?s3"
    using n by (auto simp: needs_wb_def)
  ultimately show ?case by (simp only: inval_Cons)
qed

lemma flush_loop_clean:
  "(\<And>i. i \<in> set as \<Longrightarrow> \<not> needs_wb s i) \<Longrightarrow>
   flush_loop D fa ia as s = (RES_OK, (inval ia as s)\<lparr>s_dirty_blocks := False\<rparr>)"
  using flush_loop_skip[of as s D fa ia "[]"] by simp

lemma flush_loop_write:
  "needs_wb s i \<Longrightarrow>
   flush_loop D fa ia (i # is) s =
     (if fst (dev_write D i s) \<noteq> RES_OK then dev_write D i s
      else if \<not> fa then (RES_OK, upd i (\<lambda>c. c\<lparr>dirty := False\<rparr>) (snd (dev_write D i s)))
      else flush_loop D fa ia is
             (if ia then upd i (\<lambda>c. c\<lparr>dirty := False, valid := False\<rparr>) (snd (dev_write D i s))
              else upd i (\<lambda>c. c\<lparr>dirty := False\<rparr>) (snd (dev_write D i s))))"
  by (cases "dev_write D i s") (simp add: needs_wb_def Let_def upd_def)

lemma dev_write_log:
  "io_log (snd (dev_write D i s)) =
     io_log s @ [DevWrite (pdrv (s_cache s i)) (sector (s_cache s i)) (data (s_cache s i))
                   (fst (dev_write D i s))]"
  by (simp add: dev_write_eq)

text \<open>
  C7. On a state with exactly one valid dirty entry \<open>k\<close> of the pool, where the flag
  agrees with it and the device write of \<open>k\<close> succeeds, \<open>block_cache_flush(false, false)\<close>
  does that one device write, clears the dirty bit of \<open>k\<close> and returns \<open>RES_OK\<close>; a second
  call right after does no device write and returns \<open>RES_OK\<close>.
\<close>

theorem C7_flush_one_then_none:
  fixes s :: "'d state"
  assumes f: "flag_ok s" and k: "k < CACHE_SIZE" and nk: "needs_wb s k" and od: "only_dirty s k"
    and ok: "fst (disk_write_no_cache D (dev s) (pdrv (s_cache s k)) (data (s_cache s k))
                   (sector (s_cache s k)) 1) = RES_OK"
  shows "\<exists>s1 s2.
           block_cache_flush D False False s = (RES_OK, s1) \<and>
           io_log s1 = io_log s @ [wb_event s k] \<and>
           \<not> dirty (s_cache s1 k) \<and>
           block_cache_flush D False False s1 = (RES_OK, s2) \<and>
           io_log s2 = io_log s1"
proof -
  let ?s1 = "upd k (\<lambda>c. c\<lparr>dirty := False\<rparr>) (snd (dev_write D k s))"
  from nk have vk: "valid (s_cache s k)" and dk: "dirty (s_cache s k)" by (simp_all add: needs_wb_def)
  from od have one: "\<forall>i<CACHE_SIZE. i \<noteq> k \<longrightarrow> \<not> (valid (s_cache s i) \<and> dirty (s_cache s i))"
    by (simp add: only_dirty_def needs_wb_def)
  have fl: "s_dirty_blocks s" using f k vk dk unfolding flag_ok_def by blast
  have w: "fst (dev_write D k s) = RES_OK" using ok by (simp add: dev_write_eq)
  have sp: "[0..<CACHE_SIZE] = [0..<k] @ k # [Suc k..<CACHE_SIZE]"
    using k by (metis (no_types) le0 upt_conv_Cons upt_add_eq_append le_add_diff_inverse less_imp_le)
  have pre: "\<not> needs_wb s i" if "i \<in> set [0..<k]" for i
    using that one k by (auto simp: needs_wb_def)
  have "flush_loop D False False [0..<CACHE_SIZE] s = flush_loop D False False (k # [Suc k..<CACHE_SIZE]) s"
    unfolding sp using flush_loop_skip[of "[0..<k]" s D False False, OF pre] by (simp add: inval_def)
  also have "\<dots> = (RES_OK, ?s1)"
    using vk dk w by (simp add: flush_loop_write needs_wb_def del: flush_loop.simps)
  finally have 1: "block_cache_flush D False False s = (RES_OK, ?s1)"
    using fl by (simp add: block_cache_flush_def)
  have 2: "io_log ?s1 = io_log s @ [wb_event s k]"
    using w by (simp add: dev_write_log wb_event_def)
  have cl: "\<not> needs_wb ?s1 i" if "i \<in> set [0..<CACHE_SIZE]" for i
    using that one by (auto simp: needs_wb_def)
  have "flush_loop D False False [0..<CACHE_SIZE] ?s1 = (RES_OK, ?s1\<lparr>s_dirty_blocks := False\<rparr>)"
    using flush_loop_clean[of "[0..<CACHE_SIZE]" ?s1 D False False, OF cl] by (simp add: inval_def)
  then have 3: "block_cache_flush D False False ?s1 = (RES_OK, ?s1\<lparr>s_dirty_blocks := False\<rparr>)"
    using fl by (simp add: block_cache_flush_def)
  show ?thesis
    using 1 2 3 by (intro exI[of _ ?s1] exI[of _ "?s1\<lparr>s_dirty_blocks := False\<rparr>"]) simp
qed

lemma lookup_init: "hash_lookup pd sec (block_cache_init s) = Some None"
  using hash_key_less[of pd sec]
  by (simp add: hash_lookup_def block_cache_init_eq hash_lookup_loop.simps)

lemma write_block_free:
  "hash_lookup pd sec s = Some None \<Longrightarrow> s_free_head s = Some f \<Longrightarrow>
   block_cache_write_block D pd sec buf s =
     Some (RES_OK, lru_insert_front f (hash_insert f
       ((upd f (\<lambda>c. c\<lparr>data := memcpy (data c) buf, sector := sec, pdrv := pd, dirty := True,
                       valid := True\<rparr>)
          (s\<lparr>s_free_head := hash_next (s_cache s f)\<rparr>))\<lparr>s_dirty_blocks := True\<rparr>)))"
  by (simp add: block_cache_write_block_def get_entry_def free_get_some Let_def)

lemma init_fields:
  "s_free_head (block_cache_init s) = Some 127"
  "s_lru_head (block_cache_init s) = None"
  "s_lru_tail (block_cache_init s) = None"
  "s_dirty_blocks (block_cache_init s) = s_dirty_blocks s"
  "dev (block_cache_init s) = dev s"
  "io_log (block_cache_init s) = io_log s"
  "i < CACHE_SIZE \<Longrightarrow> s_cache (block_cache_init s) i = init_entry (s_free_head s) i"
  "h < HASH_SIZE \<Longrightarrow> s_hash_table (block_cache_init s) h = None"
  by (simp_all add: block_cache_init_eq CACHE_SIZE_def)

lemma one_write_run:
  "block_cache_write_block ok_drivers 0 5 blk0 (block_cache_init (boot ())) = Some (RES_OK, one_write)"
proof -
  have "hash_next (s_cache (block_cache_init (boot ())) 127) = Some 126"
    by (simp add: init_fields CACHE_SIZE_def init_entry_def)
  then show ?thesis
    using write_block_free[OF lookup_init init_fields(1), of ok_drivers 0 5 blk0 "boot ()"]
    by (simp add: one_write_def)
qed

lemma one_write_fields:
  "s_dirty_blocks one_write"
  "i < CACHE_SIZE \<Longrightarrow> valid (s_cache one_write i) = (i = 127)"
  "i < CACHE_SIZE \<Longrightarrow> dirty (s_cache one_write i) = (i = 127)"
  "pdrv (s_cache one_write 127) = 0"
  "sector (s_cache one_write 127) = 5"
  "dev one_write = ()"
  "io_log one_write = []"
  unfolding one_write_def
  using lru_onlyD[OF lru_insert_front_only, of 127 "hash_insert 127
       ((upd 127 (\<lambda>c. c\<lparr>data := memcpy (data c) blk0, sector := 5, pdrv := 0, dirty := True,
                         valid := True\<rparr>)
          ((block_cache_init (boot ()))\<lparr>s_free_head := Some 126\<rparr>))\<lparr>s_dirty_blocks := True\<rparr>)"]
  by (auto simp: hash_insert_fields init_fields init_entry_def zero_entry_def boot_def)

theorem C10_dirty_flag_invariant_witness:
  "flag_ok (block_cache_init (boot ())) \<and>
   exec ok_drivers (Write 0 5 blk0) (block_cache_init (boot ())) = Some one_write \<and>
   flag_ok one_write \<and> s_dirty_blocks one_write"
  using C10_dirty_flag_invariant[of "block_cache_init (boot ())" ok_drivers "Write 0 5 blk0" one_write]
  by (simp add: init_flag_ok one_write_run one_write_fields)

theorem C7_flush_one_then_none_witness:
  "flag_ok one_write \<and> (127::nat) < CACHE_SIZE \<and> needs_wb one_write 127 \<and>
   only_dirty one_write 127 \<and>
   fst (disk_write_no_cache ok_drivers (dev one_write) (pdrv (s_cache one_write 127))
          (data (s_cache one_write 127)) (sector (s_cache one_write 127)) 1) = RES_OK \<and>
   (\<exists>s1 s2.
      block_cache_flush ok_drivers False False one_write = (RES_OK, s1) \<and>
      io_log s1 = io_log one_write @ [wb_event one_write 127] \<and>
      \<not> dirty (s_cache s1 127) \<and>
      block_cache_flush ok_drivers False False s1 = (RES_OK, s2) \<and>
      io_log s2 = io_log s1)"
proof -
  have f: "flag_ok one_write" by (simp add: flag_ok_def one_write_fields)
  have k: "(127::nat) < CACHE_SIZE" by (simp add: CACHE_SIZE_def)
  have v: "needs_wb one_write 127"
    using k by (simp add: needs_wb_def one_write_fields)
  have o: "only_dirty one_write 127"
    by (simp add: only_dirty_def needs_wb_def one_write_fields)
  have w: "fst (disk_write_no_cache ok_drivers (dev one_write) (pdrv (s_cache one_write 127))
          (data (s_cache one_write 127)) (sector (s_cache one_write 127)) 1) = RES_OK"
    by (simp add: disk_write_no_cache_def one_write_fields DEV_SD_def ok_drivers_def)
  from C7_flush_one_then_none[OF f k v o w] f k v o w show ?thesis by blast
qed

lemma walk_None [simp]: "walk nx None n = []"
  by (cases n) simp_all

lemma walk_seg: "seg nx p xs None \<Longrightarrow> length xs \<le> n \<Longrightarrow> walk nx p n = xs"
proof (induction xs arbitrary: p n)
  case Nil
  then show ?case by (cases n) simp_all
next
  case (Cons x xs)
  then obtain m where "n = Suc m" by (cases n) auto
  with Cons show ?case by simp
qed

lemma bounded_distinct_length:
  assumes "distinct xs" "\<And>x. x \<in> set xs \<Longrightarrow> x < n"
  shows "length xs \<le> n"
proof -
  have "set xs \<subseteq> {..<n}" using assms(2) by auto
  then have "card (set xs) \<le> card {..<n}" by (intro card_mono) simp_all
  then show ?thesis using assms(1) by (simp add: distinct_card)
qed

lemma ginv_lists:
  assumes g: "ginv None s ch lru fl"
  shows "free_list s = fl" "lru_list s = lru" "h < HASH_SIZE \<Longrightarrow> bucket_chain s h = ch h"
proof -
  note p = ginvD[OF g]
  have "length fl \<le> CACHE_SIZE"
    using p(3,4) by (intro bounded_distinct_length) (auto simp: free_ok_def link_ok_def)
  then show "free_list s = fl"
    using p(3) by (simp add: free_list_def free_ok_def walk_seg)
  have "length lru \<le> CACHE_SIZE"
    using p(2,4) by (intro bounded_distinct_length) (auto simp: lru_ok_def link_ok_def)
  then show "lru_list s = lru"
    using p(2) by (simp add: lru_list_def lru_ok_def walk_seg)
  assume h: "h < HASH_SIZE"
  note d = hash_okD[OF p(1) h]
  have "i < CACHE_SIZE" if "i \<in> set (ch h)" for i
    using p(4) that unfolding link_ok_def by blast
  then have "length (ch h) \<le> CACHE_SIZE"
    using d by (intro bounded_distinct_length) auto
  then show "bucket_chain s h = ch h"
    using d by (simp add: bucket_chain_def walk_seg)
qed

lemma hash_remove_loop_absent:
  "seg (HN s) (deref s pp) xs None \<Longrightarrow> e \<notin> set xs \<Longrightarrow> hash_remove_loop e pp s = Some s"
proof (induction xs arbitrary: pp)
  case Nil
  then show ?case by (subst hash_remove_loop.simps) simp
next
  case (Cons a xs)
  then have d: "deref s pp = Some a" and ne: "a \<noteq> e"
    and r: "seg (HN s) (deref s (Next a)) xs None" and nin: "e \<notin> set xs"
    by (simp_all add: deref_def HN_def)
  show ?case
    by (subst hash_remove_loop.simps) (simp add: d ne Cons.IH[OF r nin])
qed

text \<open>
  C9, as the code has it. When the chain of the bucket computed for an entry ends with
  \<open>NULL\<close> and does not hold the entry, \<open>hash_remove\<close> returns normally and changes
  nothing: the code has no assertion and no failure there.
\<close>

theorem C9_hash_remove_absent_is_silent:
  assumes "seg (HN s) (s_hash_table s (hk s e)) xs None" and "e \<notin> set xs"
  shows "hash_remove e s = Some s"
  unfolding hash_remove_def hk_def[symmetric]
  by (rule hash_remove_loop_absent[OF _ assms(2)]) (simp add: deref_def assms(1))

theorem C9_hash_remove_absent_is_silent_witness:
  "seg (HN (block_cache_init (boot ())))
     (s_hash_table (block_cache_init (boot ())) (hk (block_cache_init (boot ())) 5)) [] None \<and>
   5 \<notin> set ([] :: nat list) \<and>
   hash_remove 5 (block_cache_init (boot ())) = Some (block_cache_init (boot ()))"
proof -
  have 1: "seg (HN (block_cache_init (boot ())))
     (s_hash_table (block_cache_init (boot ())) (hk (block_cache_init (boot ())) 5)) [] None"
    by (simp add: init_fields hk_less)
  have 2: "5 \<notin> set ([] :: nat list)" by simp
  from C9_hash_remove_absent_is_silent[OF 1 2] 1 show ?thesis by simp
qed

text \<open>
  The claim C9 as stated fails: after \<open>block_cache_init\<close> entry 5 is in no chain, and
  \<open>hash_remove\<close> of it returns with the state as it was.
\<close>

theorem C9_counterexample:
  "bucket_chain (block_cache_init (boot ())) (hk (block_cache_init (boot ())) 5) = [] \<and>
   hash_remove 5 (block_cache_init (boot ())) = Some (block_cache_init (boot ()))"
proof -
  have 1: "seg (HN (block_cache_init (boot ())))
     (s_hash_table (block_cache_init (boot ())) (hk (block_cache_init (boot ())) 5)) [] None"
    by (simp add: init_fields hk_less)
  have "hash_remove 5 (block_cache_init (boot ())) = Some (block_cache_init (boot ()))"
    unfolding hash_remove_def hk_def[symmetric]
    by (rule hash_remove_loop_absent[where xs = "[]"]) (simp_all add: deref_def init_fields hk_less)
  moreover have "bucket_chain (block_cache_init (boot ())) (hk (block_cache_init (boot ())) 5) = []"
    by (simp add: bucket_chain_def init_fields hk_less CACHE_SIZE_def)
  ultimately show ?thesis by simp
qed

text \<open>
  C2. A miss finds no free entry and the write-back of the LRU tail \<open>e\<close> (valid and
  dirty) fails with \<open>r\<close>. Then \<open>block_cache_read_block\<close> and
  \<open>block_cache_write_block\<close> return \<open>r\<close>, and the pool, the hash table and the LRU
  and free lists are as before: \<open>e\<close> is still valid and dirty, in its chain under its
  key and at its place in the LRU list.
\<close>

theorem C2_failed_writeback_keeps_entry:
  fixes s :: "'d state"
  assumes miss: "hash_lookup pd sec s = Some None" and nofree: "s_free_head s = None"
    and tail: "s_lru_tail s = Some e" and nw: "needs_wb s e"
    and wr: "disk_write_no_cache D (dev s) (pdrv (s_cache s e)) (data (s_cache s e))
               (sector (s_cache s e)) 1 = (r, d')"
    and fail: "r \<noteq> RES_OK"
  shows "block_cache_read_block D pd sec od s = Some (r, od, failed_writeback r d' e s) \<and>
         block_cache_write_block D pd sec buf s = Some (r, failed_writeback r d' e s) \<and>
         s_cache (failed_writeback r d' e s) = s_cache s \<and>
         s_hash_table (failed_writeback r d' e s) = s_hash_table s \<and>
         s_lru_head (failed_writeback r d' e s) = s_lru_head s \<and>
         s_lru_tail (failed_writeback r d' e s) = s_lru_tail s \<and>
         s_free_head (failed_writeback r d' e s) = s_free_head s \<and>
         needs_wb (failed_writeback r d' e s) e \<and>
         lru_list (failed_writeback r d' e s) = lru_list s \<and>
         bucket_chain (failed_writeback r d' e s) (hk s e) = bucket_chain s (hk s e)"
proof -
  have dw: "dev_write D e s = (r, s\<lparr>dev := d', io_log := io_log s @
         [DevWrite (pdrv (s_cache s e)) (sector (s_cache s e)) (data (s_cache s e)) r]\<rparr>)"
    using wr by (simp add: dev_write_def)
  have ev: "evict_entry D s = Some (None, failed_writeback r d' e s)"
    using evict_entry_fail[of s e D] tail nw fail
    by (simp add: dw needs_wb_def failed_writeback_def)
  have ge: "get_entry D s = Some (None, failed_writeback r d' e s)"
    by (simp add: get_entry_def free_get_none[OF nofree] ev)
  have er: "s_evict_error (failed_writeback r d' e s) = r" by (simp add: failed_writeback_def)
  have "block_cache_read_block D pd sec od s = Some (r, od, failed_writeback r d' e s)"
    by (simp add: block_cache_read_block_def miss ge er)
  moreover have "block_cache_write_block D pd sec buf s = Some (r, failed_writeback r d' e s)"
    by (simp add: block_cache_write_block_def miss ge er)
  moreover have "needs_wb (failed_writeback r d' e s) e"
    using nw by (simp add: needs_wb_def failed_writeback_def)
  ultimately show ?thesis
    by (simp add: failed_writeback_def lru_list_def bucket_chain_def)
qed

lemma one_write_links:
  "s_lru_head one_write = Some 127"
  "s_lru_tail one_write = Some 127"
  "s_free_head one_write = Some 126"
  "h < HASH_SIZE \<Longrightarrow> s_hash_table one_write h = (if h = hash_key 0 5 then Some 127 else None)"
  "hash_next (s_cache one_write 127) = None"
proof -
  let ?t = "(upd 127 (\<lambda>c. c\<lparr>data := memcpy (data c) blk0, sector := 5, pdrv := 0, dirty := True,
                         valid := True\<rparr>)
          ((block_cache_init (boot ()))\<lparr>s_free_head := Some 126\<rparr>))\<lparr>s_dirty_blocks := True\<rparr>"
  have hd: "s_lru_head (hash_insert 127 ?t) \<noteq> Some 127" by (simp add: hash_insert_fields init_fields)
  note f = lru_insert_front_fields[OF hd] and o = lru_onlyD[OF lru_insert_front_only, of 127 "hash_insert 127 ?t"]
  have k: "hk ?t 127 = hash_key 0 5" by (simp add: hk_def)
  show "s_lru_head one_write = Some 127" unfolding one_write_def by (rule f(3))
  show "s_lru_tail one_write = Some 127"
    unfolding one_write_def by (simp add: f(4) hash_insert_fields init_fields)
  show "s_free_head one_write = Some 126"
    unfolding one_write_def by (simp add: o hash_insert_fields)
  show "s_hash_table one_write h = (if h = hash_key 0 5 then Some 127 else None)" if "h < HASH_SIZE"
    unfolding one_write_def using that k by (simp add: o hash_insert_fields init_fields)
  have "HN (hash_insert 127 ?t) 127 = None"
    using hash_key_less[of 0 5] k by (simp add: hash_insert_fields init_fields)
  then show "hash_next (s_cache one_write 127) = None"
    unfolding one_write_def by (simp add: o HN_def)
qed

lemma hash_key_5_6: "hash_key 0 5 = 19" "hash_key 0 6 = 229"
  by (simp_all add: hash_key_def HASH_SIZE_def)

theorem C2_failed_writeback_keeps_entry_witness:
  "hash_lookup 0 6 (one_write\<lparr>s_free_head := None\<rparr>) = Some None \<and>
   s_free_head (one_write\<lparr>s_free_head := None\<rparr>) = None \<and>
   s_lru_tail (one_write\<lparr>s_free_head := None\<rparr>) = Some 127 \<and>
   needs_wb (one_write\<lparr>s_free_head := None\<rparr>) 127 \<and>
   disk_write_no_cache bad_drivers (dev (one_write\<lparr>s_free_head := None\<rparr>))
     (pdrv (s_cache (one_write\<lparr>s_free_head := None\<rparr>) 127))
     (data (s_cache (one_write\<lparr>s_free_head := None\<rparr>) 127))
     (sector (s_cache (one_write\<lparr>s_free_head := None\<rparr>) 127)) 1 = (RES_ERROR, ()) \<and>
   RES_ERROR \<noteq> RES_OK \<and>
   block_cache_read_block bad_drivers 0 6 None (one_write\<lparr>s_free_head := None\<rparr>) =
     Some (RES_ERROR, None, failed_writeback RES_ERROR () 127 (one_write\<lparr>s_free_head := None\<rparr>)) \<and>
   block_cache_write_block bad_drivers 0 6 blk0 (one_write\<lparr>s_free_head := None\<rparr>) =
     Some (RES_ERROR, failed_writeback RES_ERROR () 127 (one_write\<lparr>s_free_head := None\<rparr>)) \<and>
   needs_wb (failed_writeback RES_ERROR () 127 (one_write\<lparr>s_free_head := None\<rparr>)) 127"
proof -
  let ?s = "one_write\<lparr>s_free_head := None\<rparr>"
  have 1: "hash_lookup 0 6 ?s = Some None"
    by (simp add: hash_lookup_def one_write_links hash_key_5_6 HASH_SIZE_def hash_lookup_loop.simps)
  have 2: "s_free_head ?s = None" by simp
  have 3: "s_lru_tail ?s = Some 127" by (simp add: one_write_links)
  have 4: "needs_wb ?s 127" by (simp add: needs_wb_def one_write_fields CACHE_SIZE_def)
  have 5: "disk_write_no_cache bad_drivers (dev ?s) (pdrv (s_cache ?s 127)) (data (s_cache ?s 127))
             (sector (s_cache ?s 127)) 1 = (RES_ERROR, ())"
    by (simp add: disk_write_no_cache_def one_write_fields DEV_SD_def bad_drivers_def)
  have 6: "RES_ERROR \<noteq> RES_OK" by simp
  from C2_failed_writeback_keeps_entry[OF 1 2 3 4 5 6, of None blk0] 1 2 3 4 5
  show ?thesis by simp
qed

lemma read_block_free:
  "hash_lookup pd sec s = Some None \<Longrightarrow> s_free_head s = Some f \<Longrightarrow>
   block_cache_read_block D pd sec od s =
     (case dev_read D pd f sec (s\<lparr>s_free_head := hash_next (s_cache s f)\<rparr>) of
        (result, s2) \<Rightarrow>
          if result \<noteq> RES_OK then Some (result, od, s2)
          else
            (let s5 = lru_insert_front f (hash_insert f
                        (upd f (\<lambda>c. c\<lparr>sector := sec, pdrv := pd, dirty := False, valid := True\<rparr>) s2))
             in Some (RES_OK, map_option (\<lambda>out. memcpy out (data (s_cache s5 f))) od, s5)))"
  by (simp add: block_cache_read_block_def get_entry_def free_get_some Let_def split: prod.splits)

text \<open>
  C3, on the code. After \<open>block_cache_init\<close>, a \<open>block_cache_read_block\<close> whose device
  read fails (here: of drive 7, which \<open>disk_read_no_cache\<close> refuses) returns the error,
  and entry 127, taken from the free list for the miss, is on no list afterwards: the
  free list has lost it, and neither the LRU list nor the hash table holds it.
\<close>

theorem C3_failed_read_loses_entry:
  "block_cache_read_block ok_drivers 7 0 None (block_cache_init (boot ())) =
     Some (RES_PARERR, None, lost_entry) \<and>
   free_list (block_cache_init (boot ())) = rev [0..<128] \<and>
   free_list lost_entry = rev [0..<127] \<and>
   lru_list lost_entry = [] \<and>
   s_hash_table lost_entry = s_hash_table (block_cache_init (boot ())) \<and>
   valid (s_cache lost_entry 127) = False"
proof -
  let ?i = "block_cache_init (boot ())"
  have hn: "hash_next (s_cache ?i 127) = Some 126"
    by (simp add: init_fields CACHE_SIZE_def init_entry_def)
  have dr: "disk_read_no_cache ok_drivers x 7 b 0 n = (RES_PARERR, b, x)" for b x n
    by (simp add: disk_read_no_cache_def DEV_SD_def ok_drivers_def)
  have "snd (dev_read ok_drivers 7 127 0 (?i\<lparr>s_free_head := Some 126\<rparr>)) = lost_entry"
    by (rule state.equality)
       (simp_all add: dev_read_def dr lost_entry_def init_fields fun_eq_iff boot_def)
  moreover have "fst (dev_read ok_drivers 7 127 0 (?i\<lparr>s_free_head := Some 126\<rparr>)) = RES_PARERR"
    by (simp add: dev_read_def dr)
  ultimately have "dev_read ok_drivers 7 127 0 (?i\<lparr>s_free_head := Some 126\<rparr>) = (RES_PARERR, lost_entry)"
    by (metis prod.collapse)
  then have 1: "block_cache_read_block ok_drivers 7 0 None ?i = Some (RES_PARERR, None, lost_entry)"
    using read_block_free[OF lookup_init init_fields(1), of ok_drivers 7 0 None "boot ()"]
    by (simp add: hn)
  have "ginv None ?i (\<lambda>_. []) [] (rev [0..<CACHE_SIZE])"
    using init_ginv[of "boot ()"] by (simp add: boot_def)
  from ginv_lists(1)[OF this] have 2: "free_list ?i = rev [0..<128]"
    by (simp add: CACHE_SIZE_def)
  have "HN lost_entry i = (if i = 0 then None else Some (i - 1))" if "i < 127" for i
    using that by (simp add: lost_entry_def HN_def init_fields CACHE_SIZE_def init_entry_def boot_def)
  from seg_down[of 127 "HN lost_entry" None, OF this]
  have "seg (HN lost_entry) (Some 126) (rev [0..<127]) None" by simp
  then have 3: "free_list lost_entry = rev [0..<127]"
    unfolding free_list_def by (intro walk_seg) (simp_all add: lost_entry_def CACHE_SIZE_def)
  have 4: "lru_list lost_entry = []"
    by (simp add: lru_list_def lost_entry_def init_fields)
  have 5: "s_hash_table lost_entry = s_hash_table ?i" by (simp add: lost_entry_def)
  have 6: "valid (s_cache lost_entry 127) = False"
    by (simp add: lost_entry_def init_fields CACHE_SIZE_def init_entry_def zero_entry_def)
  from 1 2 3 4 5 6 show ?thesis by blast
qed

lemma memcpy_twice:
  "length buf = BLOCK_SIZE \<Longrightarrow> length out = BLOCK_SIZE \<Longrightarrow> memcpy out (memcpy x buf) = buf"
  by (simp add: memcpy_def)

lemma lru_insert_front_head [simp]: "s_lru_head (lru_insert_front e s) = Some e"
  by (simp add: lru_insert_front_def Let_def split: option.splits)

lemma lru_touch_head [simp]: "s_lru_head (lru_touch e s) = Some e"
  by (simp add: lru_touch_def)

lemma reclaim_Some: "reclaim e s = Some (r, s') \<Longrightarrow> r = Some e"
  by (auto simp: reclaim_def Let_def split: bind_splits)

lemma get_entry_None_error:
  assumes "get_entry D s = Some (None, s')"
  shows "s_evict_error s' \<noteq> RES_OK"
proof (cases "s_free_head s")
  case (Some x)
  with assms show ?thesis by (simp add: get_entry_def free_get_some)
next
  case None
  with assms have ev: "evict_entry D s = Some (None, s')" by (simp add: get_entry_def free_get_none)
  show ?thesis
  proof (cases "s_lru_tail s")
    case None
    with ev show ?thesis by (auto simp: evict_entry_empty)
  next
    case (Some e)
    show ?thesis
    proof (cases "valid (s_cache s e) \<and> dirty (s_cache s e)")
      case False
      with ev Some show ?thesis by (auto simp: evict_entry_clean dest: reclaim_Some)
    next
      case True
      show ?thesis
      proof (cases "fst (dev_write D e s) = RES_OK")
        case False
        with ev Some True show ?thesis by (auto simp: evict_entry_fail)
      next
        case ok: True
        with ev Some True show ?thesis by (auto simp: evict_entry_wrote dest: reclaim_Some)
      qed
    qed
  qed
qed

lemma read_hit_front:
  assumes l: "hash_lookup pd sec s = Some (Some i)" and h: "s_lru_head s = Some i"
  shows "block_cache_read_block D pd sec (Some out) s =
           Some (RES_OK, Some (memcpy out (data (s_cache s i))), s)"
  by (simp add: block_cache_read_block_def l lru_touch_def h)

text \<open>
  After \<open>block_cache_init\<close> and any calls of the three other functions, a
  \<open>block_cache_write_block\<close> of a 512-byte buffer that returned \<open>RES_OK\<close> is followed
  by a hit: \<open>block_cache_read_block\<close> of the same drive and sector returns \<open>RES_OK\<close>
  with the buffer written, and the read changes nothing in the state.
\<close>

lemma write_ok_then_read:
  fixes s :: "'d state"
  assumes ni: "Init \<notin> set ops" and run: "run D ops (block_cache_init (boot d)) = Some s"
    and lb: "length buf = BLOCK_SIZE" and lo: "length out = BLOCK_SIZE"
    and w: "block_cache_write_block D pd sec buf s = Some (RES_OK, s1)"
  shows "block_cache_read_block D pd sec (Some out) s1 = Some (RES_OK, Some buf, s1)"
proof -
  from run_inv[OF init_boot_inv ni, of D d] run have "cache_inv s" by simp
  then obtain ch lru fl where g: "ginv None s ch lru fl" by (auto simp: cache_inv_def)
  from lookup_total[OF g] obtain e where l: "hash_lookup pd sec s = Some e" by blast
  have "\<exists>i. hash_lookup pd sec s1 = Some (Some i) \<and> s_lru_head s1 = Some i \<and>
            (\<exists>x. data (s_cache s1 i) = memcpy x buf)"
  proof (cases e)
    case (Some i)
    note h = lookup_hit[OF g l[unfolded Some]]
    let ?t = "(upd i (\<lambda>c. c\<lparr>data := memcpy (data c) buf, dirty := True\<rparr>) s)\<lparr>s_dirty_blocks := True\<rparr>"
    from w l Some have s1: "s1 = lru_touch i ?t" by (simp add: block_cache_write_block_def Let_def)
    have gt: "ginv None ?t ch lru fl"
      using h(3) by (intro ginv_mark_dirty[OF g]) (simp add: matches_def)
    have g1: "ginv None s1 ch (i # remove1 i lru) fl"
      unfolding s1 by (rule ginv_touch[OF gt h(1)])
    have o: "lru_only ?t s1" unfolding s1 by (rule lru_touch_only)
    have m: "matches s1 pd sec = matches s pd sec"
      by (simp add: lru_only_matches[OF o]) (simp add: matches_def fun_eq_iff)
    have "hash_lookup pd sec s1 = hash_lookup pd sec s"
      by (simp add: hash_lookup_ok[OF ginvD(1)[OF g1]] hash_lookup_ok[OF ginvD(1)[OF g]] m)
    moreover have "s_lru_head s1 = Some i" by (simp add: s1)
    moreover have "data (s_cache s1 i) = memcpy (data (s_cache s i)) buf"
      by (simp add: lru_onlyD(5)[OF o])
    ultimately show ?thesis using l Some by auto
  next
    case None
    from w l None obtain fe s' where ge: "get_entry D s = Some (fe, s')"
      by (auto simp: block_cache_write_block_def split: bind_splits)
    have "fe \<noteq> None"
    proof
      assume "fe = None"
      with w l None ge have "s_evict_error s' = RES_OK" by (auto simp: block_cache_write_block_def)
      with get_entry_None_error[of D s s'] ge \<open>fe = None\<close> show False by simp
    qed
    then obtain f where fe: "fe = Some f" by auto
    let ?u = "hash_insert f ((upd f (\<lambda>c. c\<lparr>data := memcpy (data c) buf, sector := sec,
                   pdrv := pd, dirty := True, valid := True\<rparr>) s')\<lparr>s_dirty_blocks := True\<rparr>)"
    from w l None ge fe have s1: "s1 = lru_insert_front f ?u"
      by (simp add: block_cache_write_block_def Let_def)
    note o = lru_onlyD[OF lru_insert_front_only, of f ?u]
    have t: "s_hash_table s1 (hash_key pd sec) = Some f"
      unfolding s1 by (simp add: o hash_insert_fields hk_def)
    have m: "valid (s_cache s1 f)" "sector (s_cache s1 f) = sec" "pdrv (s_cache s1 f) = pd"
      unfolding s1 by (simp_all add: o hash_insert_fields)
    have "hash_lookup pd sec s1 = Some (Some f)"
      unfolding hash_lookup_def t by (subst hash_lookup_loop.simps) (simp add: m)
    moreover have "s_lru_head s1 = Some f" by (simp add: s1)
    moreover have "data (s_cache s1 f) = memcpy (data (s_cache s' f)) buf"
      unfolding s1 by (simp add: o hash_insert_fields)
    ultimately show ?thesis by auto
  qed
  then obtain i x where "hash_lookup pd sec s1 = Some (Some i)" "s_lru_head s1 = Some i"
    "data (s_cache s1 i) = memcpy x buf" by blast
  then show ?thesis
    using read_hit_front[of pd sec s1 i D out] by (simp add: memcpy_twice[OF lb lo])
qed

lemma flush_loop_frame:
  "j \<notin> set is \<Longrightarrow> s_cache (snd (flush_loop D fa ia is s)) j = s_cache s j"
proof (induction "is" arbitrary: s)
  case Nil
  then show ?case by simp
next
  case (Cons i "is")
  then have ji: "j \<noteq> i" and jis: "j \<notin> set is" by auto
  show ?case
  proof (cases "needs_wb s i")
    case True
    show ?thesis
      unfolding flush_loop_write[OF True]
      using ji Cons.IH[OF jis] by (cases fa; cases ia; simp add: dev_write_eq)
  next
    case False
    then have "flush_loop D fa ia (i # is) s =
                 flush_loop D fa ia is (if ia then upd i (\<lambda>c. c\<lparr>valid := False\<rparr>) s else s)"
      by (auto simp: needs_wb_def)
    then show ?thesis using ji Cons.IH[OF jis] by (cases ia; simp)
  qed
qed

lemma map_filter_cong:
  "(\<And>x. x \<in> set xs \<Longrightarrow> f x = g x \<and> P x = Q x) \<Longrightarrow> map f (filter P xs) = map g (filter Q xs)"
  by (induction xs) auto

lemma flush_loop_all:
  "distinct is \<Longrightarrow> fst (flush_loop D True True is s) = RES_OK \<Longrightarrow>
   flushed_all s is (snd (flush_loop D True True is s))"
proof (induction "is" arbitrary: s)
  case Nil
  then show ?case by (simp add: flushed_all_def)
next
  case (Cons i "is")
  then have ni: "i \<notin> set is" and d: "distinct is" by auto
  define s3 where "s3 = (if needs_wb s i
      then upd i (\<lambda>c. c\<lparr>dirty := False, valid := False\<rparr>) (snd (dev_write D i s))
      else upd i (\<lambda>c. c\<lparr>valid := False\<rparr>) s)"
  define r where "r = snd (flush_loop D True True is s3)"
  have ok: "fst (dev_write D i s) = RES_OK" if "needs_wb s i"
    using Cons.prems(2) unfolding flush_loop_write[OF that] by (auto split: if_splits)
  have e: "flush_loop D True True (i # is) s = flush_loop D True True is s3"
  proof (cases "needs_wb s i")
    case True
    then show ?thesis unfolding flush_loop_write[OF True] using ok by (simp add: s3_def)
  next
    case False
    then show ?thesis by (auto simp: needs_wb_def s3_def)
  qed
  have "fst (flush_loop D True True is s3) = RES_OK" using Cons.prems(2) e by simp
  from Cons.IH[OF d this] have ih: "flushed_all s3 is r" by (simp add: r_def)
  have fr: "s_cache r i = s_cache s3 i"
    unfolding r_def by (rule flush_loop_frame[OF ni])
  have same: "s_cache s3 j = s_cache s j" if "j \<noteq> i" for j
    using that by (simp add: s3_def)
  have vi: "\<not> valid (s_cache s3 i)" by (simp add: s3_def)
  have di: "dirty (s_cache s3 i) \<longrightarrow> dirty (s_cache s i) \<and> \<not> valid (s_cache s i)"
    by (auto simp: s3_def needs_wb_def)
  have l3: "io_log s3 = io_log s @ map (wb_event s) (filter (needs_wb s) [i])"
    using ok by (auto simp: s3_def dev_write_log wb_event_def)
  have same': "s_cache s3 j = s_cache s j" if "j \<in> set is" for j
    using that ni by (intro same) auto
  have m: "map (wb_event s3) (filter (needs_wb s3) is) = map (wb_event s) (filter (needs_wb s) is)"
    by (intro map_filter_cong) (simp add: wb_event_def needs_wb_def same')
  have A: "\<not> valid (s_cache r j) \<and> (dirty (s_cache r j) \<longrightarrow> dirty (s_cache s j) \<and> \<not> valid (s_cache s j))"
    if "j \<in> set (i # is)" for j
  proof (cases "j = i")
    case True
    then show ?thesis using fr vi di by simp
  next
    case False
    with that have "j \<in> set is" by simp
    with ih have "\<not> valid (s_cache r j) \<and>
        (dirty (s_cache r j) \<longrightarrow> dirty (s_cache s3 j) \<and> \<not> valid (s_cache s3 j))"
      unfolding flushed_all_def by blast
    then show ?thesis by (simp add: same[OF False])
  qed
  have B: "io_log r = io_log s @ map (wb_event s) (filter (needs_wb s) (i # is))"
  proof -
    from ih have "io_log r = io_log s3 @ map (wb_event s3) (filter (needs_wb s3) is)"
      by (simp add: flushed_all_def)
    then show ?thesis unfolding m l3 by simp
  qed
  have C: "\<not> s_dirty_blocks r" using ih by (simp add: flushed_all_def)
  show ?case
    unfolding e r_def[symmetric] flushed_all_def using A B C by blast
qed

text \<open>
  \<open>block_cache_flush(true, true)\<close> while \<open>s_dirty_blocks\<close> is set. For a state reached
  from \<open>block_cache_init\<close> by calls of the three other functions, on which the call
  returns \<open>RES_OK\<close> (every device write it made succeeded): no entry of the pool is
  valid or dirty afterwards, the device writes made are exactly one per entry that was
  valid and dirty, in pool order, and every lookup misses. While \<open>s_dirty_blocks\<close> is
  clear the call changes nothing.
\<close>

lemma flush_all_flagged:
  fixes s :: "'d state"
  assumes ni: "Init \<notin> set ops" and run: "run D ops (block_cache_init (boot d)) = Some s"
    and fl: "block_cache_flush D True True s = (RES_OK, s')"
  shows "(s_dirty_blocks s \<longrightarrow>
            (\<forall>i<CACHE_SIZE. \<not> valid (s_cache s' i) \<and> \<not> dirty (s_cache s' i)) \<and>
            io_log s' = io_log s @ map (wb_event s) (filter (needs_wb s) [0..<CACHE_SIZE]) \<and>
            (\<forall>pd sec. hash_lookup pd sec s' = Some None)) \<and>
         (\<not> s_dirty_blocks s \<longrightarrow> s' = s)"
proof (intro conjI impI)
  assume "\<not> s_dirty_blocks s"
  with fl show "s' = s" by (simp add: block_cache_flush_def)
next
  assume f: "s_dirty_blocks s"
  from run_inv[OF init_boot_inv ni, of D d] run have ci: "cache_inv s" by simp
  then obtain ch lru fl where g: "ginv None s ch lru fl" by (auto simp: cache_inv_def)
  from fl f have e: "flush_loop D True True [0..<CACHE_SIZE] s = (RES_OK, s')"
    by (simp add: block_cache_flush_def)
  have fa: "flushed_all s [0..<CACHE_SIZE] s'"
    using flush_loop_all[of "[0..<CACHE_SIZE]" D s] e by simp
  have dv: "dirty (s_cache s i) \<longrightarrow> valid (s_cache s i)" if "i < CACHE_SIZE" for i
    using ginvD(5)[OF g] that unfolding vd_ok_def by blast
  show iv: "\<forall>i<CACHE_SIZE. \<not> valid (s_cache s' i) \<and> \<not> dirty (s_cache s' i)"
  proof (intro allI impI)
    fix i assume i: "i < CACHE_SIZE"
    with fa have "\<not> valid (s_cache s' i) \<and>
        (dirty (s_cache s' i) \<longrightarrow> dirty (s_cache s i) \<and> \<not> valid (s_cache s i))"
      unfolding flushed_all_def by simp
    with dv[OF i] show "\<not> valid (s_cache s' i) \<and> \<not> dirty (s_cache s' i)" by blast
  qed
  show "io_log s' = io_log s @ map (wb_event s) (filter (needs_wb s) [0..<CACHE_SIZE])"
    using fa by (simp add: flushed_all_def)
  have "ginv None (snd (flush_loop D True True [0..<CACHE_SIZE] s)) ch lru fl"
    by (rule flush_loop_inv[OF g]) (simp_all add: clean_except_def)
  then have g': "ginv None s' ch lru fl" by (simp add: e)
  show "\<forall>pd sec. hash_lookup pd sec s' = Some None"
  proof (intro allI)
    fix pd sec
    have "\<not> matches s' pd sec i" if "i \<in> set (ch (hash_key pd sec))" for i
    proof -
      from that have "i \<in> set lru" using ginvD(4)[OF g'] unfolding link_ok_def by blast
      then have "i < CACHE_SIZE" using ginvD(4)[OF g'] unfolding link_ok_def by blast
      with iv show ?thesis by (simp add: matches_def)
    qed
    then have "find (matches s' pd sec) (ch (hash_key pd sec)) = None"
      by (simp add: find_None_iff)
    then show "hash_lookup pd sec s' = Some None"
      by (simp add: hash_lookup_ok[OF ginvD(1)[OF g']])
  qed
qed


lemma needs_wb_dev_write [simp]: "needs_wb (snd (dev_write D i s)) j = needs_wb s j"
  by (simp add: needs_wb_def)



lemma one_write_reached:
  "run ok_drivers [Write 0 5 blk0] (block_cache_init (boot ())) = Some one_write"
  by (simp add: one_write_run)

lemma init_flush_all:
  "block_cache_flush ok_drivers True True (block_cache_init (boot ())) =
     (RES_OK, (block_cache_init (boot ()))\<lparr>s_dirty_blocks := False\<rparr>)"
proof -
  let ?a = "block_cache_init (boot ())"
  have f: "s_dirty_blocks ?a" by (simp add: init_fields boot_def)
  have n: "\<not> needs_wb ?a i" if "i \<in> set [0..<CACHE_SIZE]" for i
    using that by (simp add: needs_wb_def init_fields init_entry_def zero_entry_def)
  have "inval True [0..<CACHE_SIZE] ?a = ?a"
    by (rule state.equality)
       (auto simp: inval_def fun_eq_iff init_fields init_entry_def zero_entry_def)
  with flush_loop_clean[of "[0..<CACHE_SIZE]" ?a ok_drivers True True, OF n]
  show ?thesis using f by (simp add: block_cache_flush_def)
qed

lemma clean_read_run:
  "block_cache_read_block ok_drivers 0 5 None ((block_cache_init (boot ()))\<lparr>s_dirty_blocks := False\<rparr>) =
     Some (RES_OK, None, clean_read)"
proof -
  let ?b = "(block_cache_init (boot ()))\<lparr>s_dirty_blocks := False\<rparr>"
  have l: "hash_lookup 0 5 ?b = Some None"
    using hash_key_less[of 0 5] by (simp add: hash_lookup_def init_fields hash_lookup_loop.simps)
  have fh: "s_free_head ?b = Some 127" by (simp add: init_fields)
  have hn: "hash_next (s_cache ?b 127) = Some 126"
    by (simp add: init_fields CACHE_SIZE_def init_entry_def)
  have dr: "disk_read_no_cache ok_drivers x 0 b 5 n = (RES_OK, b, x)" for b x n
    by (simp add: disk_read_no_cache_def DEV_SD_def ok_drivers_def)
  let ?c = "(block_cache_init (boot ()))\<lparr>s_dirty_blocks := False, s_free_head := Some 126,
                                         io_log := [DevRead 0 5 RES_OK]\<rparr>"
  have "snd (dev_read ok_drivers 0 127 5 (?b\<lparr>s_free_head := Some 126\<rparr>)) = ?c"
    by (rule state.equality) (simp_all add: dev_read_def dr init_fields fun_eq_iff boot_def)
  moreover have "fst (dev_read ok_drivers 0 127 5 (?b\<lparr>s_free_head := Some 126\<rparr>)) = RES_OK"
    by (simp add: dev_read_def dr)
  ultimately have "dev_read ok_drivers 0 127 5 (?b\<lparr>s_free_head := Some 126\<rparr>) = (RES_OK, ?c)"
    by (metis prod.collapse)
  then show ?thesis
    using read_block_free[OF l fh, of ok_drivers None, unfolded hn] by (simp add: clean_read_def)
qed

lemma clean_read_fields:
  "s_dirty_blocks clean_read = False"
  "valid (s_cache clean_read 127)"
  "sector (s_cache clean_read 127) = 5"
  "pdrv (s_cache clean_read 127) = 0"
  "s_hash_table clean_read (hash_key 0 5) = Some 127"
proof -
  let ?t = "upd 127 (\<lambda>c. c\<lparr>sector := 5, pdrv := 0, dirty := False, valid := True\<rparr>)
          ((block_cache_init (boot ()))\<lparr>s_dirty_blocks := False, s_free_head := Some 126,
                                         io_log := [DevRead 0 5 RES_OK]\<rparr>)"
  note o = lru_onlyD[OF lru_insert_front_only, of 127 "hash_insert 127 ?t"]
  have k: "hk ?t 127 = hash_key 0 5" by (simp add: hk_def)
  show "s_dirty_blocks clean_read = False"
    unfolding clean_read_def by (simp add: o hash_insert_fields init_fields)
  show "valid (s_cache clean_read 127)" "sector (s_cache clean_read 127) = 5"
    "pdrv (s_cache clean_read 127) = 0"
    unfolding clean_read_def by (simp_all add: o hash_insert_fields)
  show "s_hash_table clean_read (hash_key 0 5) = Some 127"
    unfolding clean_read_def using k by (simp add: o hash_insert_fields)
qed

text \<open>
  C5: where the code departs from it. After \<open>block_cache_init\<close>, a first
  \<open>block_cache_flush(true, true)\<close> (which clears \<open>s_dirty_blocks\<close>) and a read of
  block 5 of drive 0 that the device serves, entry 127 caches (0, 5) and is clean. A
  second \<open>block_cache_flush(true, true)\<close> returns \<open>RES_OK\<close> at its first line and
  invalidates nothing: entry 127 is still valid, a lookup of (0, 5) still hits, and
  the \<open>block_cache_read_block(0, 5)\<close> that follows is served from the cache without
  any device read.
\<close>

theorem C5_clean_flush_keeps_entries:
  "run ok_drivers [Init, Flush True True, Read 0 5 None] (boot ()) = Some clean_read \<and>
   block_cache_flush ok_drivers True True clean_read = (RES_OK, clean_read) \<and>
   valid (s_cache clean_read 127) \<and>
   hash_lookup 0 5 clean_read = Some (Some 127) \<and>
   block_cache_read_block ok_drivers 0 5 (Some blk0) clean_read =
     Some (RES_OK, Some (memcpy blk0 (data (s_cache clean_read 127))), clean_read) \<and>
   io_log clean_read = [DevRead 0 5 RES_OK]"
proof -
  have 1: "run ok_drivers [Init, Flush True True, Read 0 5 None] (boot ()) = Some clean_read"
    by (simp add: init_flush_all clean_read_run)
  have 2: "block_cache_flush ok_drivers True True clean_read = (RES_OK, clean_read)"
    by (simp add: block_cache_flush_def clean_read_fields)
  have 3: "hash_lookup 0 5 clean_read = Some (Some 127)"
    unfolding hash_lookup_def clean_read_fields(5)
    by (subst hash_lookup_loop.simps) (simp add: clean_read_fields)
  have 4: "s_lru_head clean_read = Some 127" by (simp add: clean_read_def)
  note 5 = read_hit_front[OF 3 4, of ok_drivers blk0]
  have 6: "io_log clean_read = [DevRead 0 5 RES_OK]"
    unfolding clean_read_def
    by (simp add: lru_onlyD(12)[OF lru_insert_front_only] hash_insert_fields)
  from 1 2 3 5 6 clean_read_fields(2) show ?thesis by simp
qed







lemma cache_inv_uniq: "cache_inv s \<Longrightarrow> uniq s"
  unfolding cache_inv_def using ginvD(7) by blast



text \<open>
  One \<open>block_cache_init\<close>. After it, every sequence of calls of
  \<open>block_cache_read_block\<close>, \<open>block_cache_write_block\<close> and \<open>block_cache_flush\<close>
  returns, and in the state reached no two valid entries of the pool have the same
  drive and sector.
\<close>

lemma single_init_uniq:
  fixes d :: 'd
  assumes "Init \<notin> set ops"
  shows "\<exists>s. run D ops (block_cache_init (boot d)) = Some s \<and> uniq s"
  using run_inv[OF init_boot_inv assms, of D d] cache_inv_uniq by blast


lemma upt_128: "[0..<CACHE_SIZE] = [0..<127] @ [127]"
proof -
  have c: "CACHE_SIZE = Suc 127" by (simp add: CACHE_SIZE_def)
  show ?thesis unfolding c by (rule upt_Suc_append) simp
qed

lemma one_write_ginv:
  "ginv None one_write ((\<lambda>_. [])(hash_key 0 5 := [127])) [127] (rev [0..<127])"
proof -
  let ?i = "block_cache_init (boot ())"
  have "ginv None ?i (\<lambda>_. []) [] (rev [0..<CACHE_SIZE])"
    using init_ginv[of "boot ()"] by (simp add: boot_def)
  then have gi: "ginv None ?i (\<lambda>_. []) [] (127 # rev [0..<127])"
    by (simp only: upt_128 rev_append rev.simps append.simps)
  have hn: "hash_next (s_cache ?i 127) = Some 126"
    by (simp add: init_fields CACHE_SIZE_def init_entry_def)
  note fg = free_get_ok[OF gi, unfolded hn]
  have nm: "\<not> matches (?i\<lparr>s_free_head := Some 126\<rparr>) 0 5 i" if "i < CACHE_SIZE" for i
    using that by (simp add: matches_def init_fields init_entry_def zero_entry_def)
  have "ginv None (lru_insert_front 127 (hash_insert 127
          ((upd 127 (\<lambda>c. c\<lparr>data := memcpy (data c) blk0, sector := 5, pdrv := 0, dirty := True,
                         valid := True\<rparr>) (?i\<lparr>s_free_head := Some 126\<rparr>))\<lparr>s_dirty_blocks := True\<rparr>)))
          ((\<lambda>_. [])(hash_key 0 5 := 127 # (\<lambda>_. []) (hash_key 0 5))) (127 # []) (rev [0..<127])"
    by (rule install_ok[OF fg(2) fg(3) fg(4) fg(5) nm]) simp_all
  then show ?thesis by (simp add: one_write_def)
qed




lemma recency_snoc: "recency (ks @ [k]) = k # remove1 k (recency ks)"
  by (simp add: recency_def)

lemma recency_Nil [simp]: "recency [] = []"
  by (simp add: recency_def)

lemma recency_distinct_set: "distinct (recency ks) \<and> set (recency ks) = set ks"
proof (induction ks rule: rev_induct)
  case Nil
  then show ?case by simp
next
  case (snoc k ks)
  then show ?case by (auto simp: recency_snoc)
qed

lemma run_append:
  "run D (xs @ ys) s = (case run D xs s of None \<Rightarrow> None | Some s' \<Rightarrow> run D ys s')"
  by (induction xs arbitrary: s) (auto split: option.splits)

lemma all_ok_append:
  "all_ok D (xs @ ys) s =
     (all_ok D xs s \<and> (case run D xs s of None \<Rightarrow> False | Some s' \<Rightarrow> all_ok D ys s'))"
  by (induction xs arbitrary: s) (auto split: option.splits)

lemma matches_key: "matches s pd sec i = (valid (s_cache s i) \<and> key s i = (pd, sec))"
  by (auto simp: matches_def key_def)

lemma lookup_none_iff:
  assumes g: "ginv q s ch lru fl"
  shows "hash_lookup pd sec s = Some None \<longleftrightarrow> (\<forall>i<CACHE_SIZE. \<not> matches s pd sec i)"
proof
  assume "hash_lookup pd sec s = Some None"
  then show "\<forall>i<CACHE_SIZE. \<not> matches s pd sec i"
    using lookup_miss[OF g] by blast
next
  assume n: "\<forall>i<CACHE_SIZE. \<not> matches s pd sec i"
  have "\<not> matches s pd sec i" if "i \<in> set (ch (hash_key pd sec))" for i
  proof -
    from that have "i \<in> set lru" using ginvD(4)[OF g] unfolding link_ok_def by blast
    then have "i < CACHE_SIZE" using ginvD(4)[OF g] unfolding link_ok_def by blast
    with n show ?thesis by blast
  qed
  then have "find (matches s pd sec) (ch (hash_key pd sec)) = None"
    by (simp add: find_None_iff)
  then show "hash_lookup pd sec s = Some None"
    by (simp add: hash_lookup_ok[OF ginvD(1)[OF g]])
qed

lemma lookup_some_iff:
  assumes g: "ginv q s ch lru fl" and i: "i < CACHE_SIZE" and m: "matches s pd sec i"
  shows "hash_lookup pd sec s = Some (Some i)"
proof -
  from lookup_total[OF g] obtain r where r: "hash_lookup pd sec s = Some r" by blast
  show ?thesis
  proof (cases r)
    case None
    with r lookup_miss[OF g _ i] m show ?thesis by blast
  next
    case (Some j)
    note h = lookup_hit[OF g r[unfolded Some]]
    from h(3) m have "valid (s_cache s j)" "valid (s_cache s i)"
      "pdrv (s_cache s j) = pdrv (s_cache s i)" "sector (s_cache s j) = sector (s_cache s i)"
      by (simp_all add: matches_def)
    with ginvD(7)[OF g] h(2) i have "j = i" unfolding uniq_def by blast
    with r Some show ?thesis by simp
  qed
qed

lemma installed_w_fields:
  "valid (s_cache (installed_w f pd sec buf s) i) = (i = f \<or> valid (s_cache s i))"
  "dirty (s_cache (installed_w f pd sec buf s) i) = (i = f \<or> dirty (s_cache s i))"
  "key (installed_w f pd sec buf s) i = (if i = f then (pd, sec) else key s i)"
  "hash_next (s_cache (installed_w f pd sec buf s) i) =
     (if i = f then s_hash_table s (hash_key pd sec) else hash_next (s_cache s i))"
  "s_hash_table (installed_w f pd sec buf s) = (s_hash_table s)(hash_key pd sec := Some f)"
  "s_free_head (installed_w f pd sec buf s) = s_free_head s"
  "s_lru_head (installed_w f pd sec buf s) = Some f"
  "io_log (installed_w f pd sec buf s) = io_log s"
  "dev (installed_w f pd sec buf s) = dev s"
  "s_dirty_blocks (installed_w f pd sec buf s) = True"
  unfolding installed_w_def key_def
  using lru_onlyD[OF lru_insert_front_only, of f "hash_insert f
       ((upd f (\<lambda>c. c\<lparr>data := memcpy (data c) buf, sector := sec, pdrv := pd, dirty := True,
                       valid := True\<rparr>) s)\<lparr>s_dirty_blocks := True\<rparr>)"]
    hash_insert_fields(1,2)[of f "(upd f (\<lambda>c. c\<lparr>data := memcpy (data c) buf, sector := sec, pdrv := pd, dirty := True,
                       valid := True\<rparr>) s)\<lparr>s_dirty_blocks := True\<rparr>"]
  by (auto simp: hash_insert_fields(3-) hk_def HN_def fun_eq_iff)

lemma installed_r_fields:
  "valid (s_cache (installed_r f pd sec s) i) = (i = f \<or> valid (s_cache s i))"
  "dirty (s_cache (installed_r f pd sec s) i) = (i \<noteq> f \<and> dirty (s_cache s i))"
  "key (installed_r f pd sec s) i = (if i = f then (pd, sec) else key s i)"
  "s_hash_table (installed_r f pd sec s) = (s_hash_table s)(hash_key pd sec := Some f)"
  "s_free_head (installed_r f pd sec s) = s_free_head s"
  "s_lru_head (installed_r f pd sec s) = Some f"
  "io_log (installed_r f pd sec s) = io_log s"
  "dev (installed_r f pd sec s) = dev s"
  "s_dirty_blocks (installed_r f pd sec s) = s_dirty_blocks s"
  unfolding installed_r_def key_def
  using lru_onlyD[OF lru_insert_front_only, of f "hash_insert f
       (upd f (\<lambda>c. c\<lparr>sector := sec, pdrv := pd, dirty := False, valid := True\<rparr>) s)"]
    hash_insert_fields(2)[of f "upd f (\<lambda>c. c\<lparr>sector := sec, pdrv := pd, dirty := False, valid := True\<rparr>) s"]
  by (auto simp: hash_insert_fields(3-) hk_def fun_eq_iff)

lemma installed_w_ginv:
  fixes s :: "'d state"
  assumes "ginv q s ch lru fl" "f < CACHE_SIZE" "f \<notin> set lru" "f \<notin> set fl"
    and "\<And>i. i < CACHE_SIZE \<Longrightarrow> \<not> matches s pd sec i"
  shows "ginv q (installed_w f pd sec buf s)
           (ch(hash_key pd sec := f # ch (hash_key pd sec))) (f # lru) fl"
  unfolding installed_w_def by (rule install_ok[OF assms]) simp_all

lemma installed_r_ginv:
  fixes s :: "'d state"
  assumes "ginv q s ch lru fl" "f < CACHE_SIZE" "f \<notin> set lru" "f \<notin> set fl"
    and "\<And>i. i < CACHE_SIZE \<Longrightarrow> \<not> matches s pd sec i"
  shows "ginv q (installed_r f pd sec s)
           (ch(hash_key pd sec := f # ch (hash_key pd sec))) (f # lru) fl"
proof -
  let ?g = "\<lambda>c. c\<lparr>sector := sec, pdrv := pd, dirty := False, valid := True\<rparr>"
  have eq: "(upd f ?g s)\<lparr>s_dirty_blocks := s_dirty_blocks s\<rparr> = upd f ?g s"
    by (simp add: upd_def)
  have "ginv q (lru_insert_front f (hash_insert f ((upd f ?g s)\<lparr>s_dirty_blocks := s_dirty_blocks s\<rparr>)))
           (ch(hash_key pd sec := f # ch (hash_key pd sec))) (f # lru) fl"
    by (rule install_ok[OF assms]) simp_all
  then show ?thesis unfolding installed_r_def by (simp only: eq)
qed

lemma key_lru_only: "lru_only s s' \<Longrightarrow> key s' = key s"
  by (simp add: lru_only_def key_def fun_eq_iff)

lemma map_remove1_inj:
  "inj_on f (set xs) \<Longrightarrow> x \<in> set xs \<Longrightarrow> map f (remove1 x xs) = remove1 (f x) (map f xs)"
proof (induction xs)
  case Nil
  then show ?case by simp
next
  case (Cons a xs)
  show ?case
  proof (cases "a = x")
    case True
    then show ?thesis by simp
  next
    case False
    with Cons.prems have x: "x \<in> set xs" and i: "inj_on f (set xs)" and n: "f a \<noteq> f x"
      by (auto simp: inj_on_def)
    from Cons.IH[OF i x] False n show ?thesis by simp
  qed
qed

lemma write_hit_eq:
  assumes g: "ginv q s ch lru fl" and i: "i < CACHE_SIZE" and m: "matches s pd sec i"
  shows "block_cache_write_block D pd sec buf s =
           Some (RES_OK, lru_touch i
             ((upd i (\<lambda>c. c\<lparr>data := memcpy (data c) buf, dirty := True\<rparr>) s)\<lparr>s_dirty_blocks := True\<rparr>))"
  by (simp add: block_cache_write_block_def lookup_some_iff[OF g i m] Let_def)

lemma read_hit_eq:
  assumes g: "ginv q s ch lru fl" and i: "i < CACHE_SIZE" and m: "matches s pd sec i"
  shows "block_cache_read_block D pd sec od s =
           Some (RES_OK, map_option (\<lambda>out. memcpy out (data (s_cache (lru_touch i s) i))) od,
                 lru_touch i s)"
  by (simp add: block_cache_read_block_def lookup_some_iff[OF g i m] Let_def)

lemma write_block_evict:
  "hash_lookup pd sec s = Some None \<Longrightarrow> s_free_head s = None \<Longrightarrow>
   block_cache_write_block D pd sec buf s =
     (case evict_entry D s of
        None \<Rightarrow> None
      | Some (None, s1) \<Rightarrow> Some (s_evict_error s1, s1)
      | Some (Some f, s1) \<Rightarrow> Some (RES_OK, installed_w f pd sec buf s1))"
  by (simp add: block_cache_write_block_def get_entry_def free_get_none Let_def installed_w_def
           split: option.splits prod.splits)

lemma read_block_evict:
  "hash_lookup pd sec s = Some None \<Longrightarrow> s_free_head s = None \<Longrightarrow>
   block_cache_read_block D pd sec od s =
     (case evict_entry D s of
        None \<Rightarrow> None
      | Some (None, s1) \<Rightarrow> Some (s_evict_error s1, od, s1)
      | Some (Some f, s1) \<Rightarrow>
          (if fst (dev_read D pd f sec s1) \<noteq> RES_OK
           then Some (fst (dev_read D pd f sec s1), od, snd (dev_read D pd f sec s1))
           else Some (RES_OK,
                  map_option (\<lambda>out. memcpy out
                    (data (s_cache (installed_r f pd sec (snd (dev_read D pd f sec s1))) f))) od,
                  installed_r f pd sec (snd (dev_read D pd f sec s1)))))"
  by (simp add: block_cache_read_block_def get_entry_def free_get_none Let_def installed_r_def
           split: option.splits prod.splits)

lemma tracks_no_match:
  assumes g: "ginv q s ch lru fl" and k: "(pd, sec) \<notin> set (map (key s) lru)"
    and i: "i < CACHE_SIZE"
  shows "\<not> matches s pd sec i"
proof
  assume m: "matches s pd sec i"
  then have "valid (s_cache s i)" by (simp add: matches_def)
  with ginvD(5)[OF g] i have "i \<in> set lru" by (simp add: vd_ok_def)
  moreover from m have "key s i = (pd, sec)" by (simp add: matches_key)
  ultimately show False using k by force
qed

lemma lru_bound: "ginv q s ch lru fl \<Longrightarrow> i \<in> set lru \<Longrightarrow> i < CACHE_SIZE"
  using ginvD(4) unfolding link_ok_def by blast

lemma key_inj:
  assumes g: "ginv q s ch lru fl" and v: "\<forall>i\<in>set lru. valid (s_cache s i)"
  shows "inj_on (key s) (set lru)"
proof (rule inj_onI)
  fix i j assume i: "i \<in> set lru" and j: "j \<in> set lru" and e: "key s i = key s j"
  from v i j have "valid (s_cache s i)" "valid (s_cache s j)" by blast+
  moreover from e have "pdrv (s_cache s i) = pdrv (s_cache s j)"
    "sector (s_cache s i) = sector (s_cache s j)" by (simp_all add: key_def)
  ultimately show "i = j"
    using ginvD(7)[OF g] lru_bound[OF g i] lru_bound[OF g j] unfolding uniq_def by blast
qed

text \<open>An access to a cached key: a hit, which moves the key to the front.\<close>

lemma tracks_hit:
  fixes s :: "'d state"
  assumes t: "tracks q s ks" and a: "is_access x" and k: "key_of x \<in> set ks"
  shows "\<exists>s'. exec D x s = Some s' \<and> exec_res D x s = Some RES_OK \<and>
           tracks q s' (key_of x # remove1 (key_of x) ks) \<and> io_log s' = io_log s"
proof -
  from t obtain ch lru fl where g: "ginv q s ch lru fl" and ks: "map (key s) lru = ks"
    and v: "\<forall>i\<in>set lru. valid (s_cache s i)" and n: "length lru + length fl = CACHE_SIZE"
    unfolding tracks_def by blast
  obtain pd sec where ps: "key_of x = (pd, sec)" by (cases "key_of x")
  from k ks ps obtain i where i: "i \<in> set lru" and ki: "key s i = (pd, sec)" by auto
  note ic = lru_bound[OF g i]
  from v i ki have m: "matches s pd sec i" by (simp add: matches_key)
  note inj = key_inj[OF g v]
  have rm: "map (key s) (remove1 i lru) = remove1 (pd, sec) ks"
    using map_remove1_inj[OF inj i] ki ks by simp
  have d: "distinct lru" using ginvD(2)[OF g] by (simp add: lru_ok_def)
  have len: "length (i # remove1 i lru) = length lru"
    using i by (simp add: length_remove1) (cases lru; simp)
  have st: "set (remove1 i lru) \<subseteq> set lru" by (rule set_remove1_subset)
  show ?thesis
  proof (cases x)
    case (Read p c od)
    with ps have [simp]: "p = pd" "c = sec" by simp_all
    let ?s' = "lru_touch i s"
    have g': "ginv q ?s' ch (i # remove1 i lru) fl" by (rule ginv_touch[OF g i])
    have ke: "key ?s' = key s" by (rule key_lru_only[OF lru_touch_only])
    have ve: "valid (s_cache ?s' j) = valid (s_cache s j)" for j
      by (rule lru_onlyD(1)[OF lru_touch_only])
    have "tracks q ?s' ((pd, sec) # remove1 (pd, sec) ks)"
      unfolding tracks_def
    proof (intro exI conjI)
      show "ginv q ?s' ch (i # remove1 i lru) fl" by (rule g')
      show "map (key ?s') (i # remove1 i lru) = (pd, sec) # remove1 (pd, sec) ks"
        by (simp add: ke ki rm)
      show "\<forall>j\<in>set (i # remove1 i lru). valid (s_cache ?s' j)"
        using v i st by (auto simp: ve)
      show "length (i # remove1 i lru) + length fl = CACHE_SIZE" using n len by simp
    qed
    moreover have "io_log ?s' = io_log s" by (rule lru_onlyD(12)[OF lru_touch_only])
    ultimately show ?thesis
      using Read ps by (simp add: read_hit_eq[OF g ic m])
  next
    case (Write p c buf)
    with ps have [simp]: "p = pd" "c = sec" by simp_all
    let ?t = "(upd i (\<lambda>c. c\<lparr>data := memcpy (data c) buf, dirty := True\<rparr>) s)\<lparr>s_dirty_blocks := True\<rparr>"
    let ?s' = "lru_touch i ?t"
    from v i have vi: "valid (s_cache s i)" by blast
    have gt: "ginv q ?t ch lru fl" by (rule ginv_mark_dirty[OF g vi])
    have g': "ginv q ?s' ch (i # remove1 i lru) fl" by (rule ginv_touch[OF gt i])
    have ke: "key ?s' = key s"
      unfolding key_lru_only[OF lru_touch_only] by (simp add: key_def fun_eq_iff)
    have ve: "valid (s_cache ?s' j) = valid (s_cache s j)" for j
      unfolding lru_onlyD(1)[OF lru_touch_only] by simp
    have "tracks q ?s' ((pd, sec) # remove1 (pd, sec) ks)"
      unfolding tracks_def
    proof (intro exI conjI)
      show "ginv q ?s' ch (i # remove1 i lru) fl" by (rule g')
      show "map (key ?s') (i # remove1 i lru) = (pd, sec) # remove1 (pd, sec) ks"
        by (simp add: ke ki rm)
      show "\<forall>j\<in>set (i # remove1 i lru). valid (s_cache ?s' j)"
        using v i st by (auto simp: ve)
      show "length (i # remove1 i lru) + length fl = CACHE_SIZE" using n len by simp
    qed
    moreover have "io_log ?s' = io_log s"
      unfolding lru_onlyD(12)[OF lru_touch_only] by simp
    ultimately show ?thesis
      using Write ps by (simp add: write_hit_eq[OF g ic m])
  next
    case Init
    with a show ?thesis by simp
  next
    case (Flush fa ia)
    with a show ?thesis by simp
  qed
qed

lemma key_simps [simp]:
  "key (snd (dev_read D pd i sec s)) = key s"
  "key (snd (dev_write D i s)) = key s"
  "key (s\<lparr>s_free_head := p\<rparr>) = key s"
  "key (s\<lparr>s_evict_error := r\<rparr>) = key s"
  by (simp_all add: key_def fun_eq_iff)

text \<open>An access to a key that is not cached, while an entry is free.\<close>

lemma tracks_miss_free:
  fixes s :: "'d state"
  assumes t: "tracks q s ks" and a: "is_access x" and k: "key_of x \<notin> set ks"
    and l: "length ks < CACHE_SIZE" and r: "exec_res D x s = Some RES_OK"
  shows "\<exists>s'. exec D x s = Some s' \<and> tracks q s' (key_of x # ks)"
proof -
  from t obtain ch lru fl0 where g: "ginv q s ch lru fl0" and ks: "map (key s) lru = ks"
    and v: "\<forall>i\<in>set lru. valid (s_cache s i)" and n: "length lru + length fl0 = CACHE_SIZE"
    unfolding tracks_def by blast
  obtain pd sec where ps: "key_of x = (pd, sec)" by (cases "key_of x")
  from l ks n have "fl0 \<noteq> []" by auto
  then obtain f fl where fl0: "fl0 = f # fl" by (cases fl0) auto
  note fg = free_get_ok[OF g[unfolded fl0]]
  have nm: "\<not> matches s pd sec i" if "i < CACHE_SIZE" for i
    using tracks_no_match[OF g _ that, of pd sec] k ks ps by simp
  then have lk: "hash_lookup pd sec s = Some None"
    using lookup_none_iff[OF g] by blast
  have hd: "s_free_head s = Some f"
    using ginvD(3)[OF g] by (simp add: fl0 free_ok_def)
  let ?s1 = "s\<lparr>s_free_head := hash_next (s_cache s f)\<rparr>"
  have nm1: "\<not> matches ?s1 pd sec i" if "i < CACHE_SIZE" for i
    using nm[OF that] by (simp add: matches_def)
  have fin: "tracks q s' ((pd, sec) # ks)"
    if g': "ginv q s' (ch(hash_key pd sec := f # ch (hash_key pd sec))) (f # lru) fl"
      and ke: "\<And>i. key s' i = (if i = f then (pd, sec) else key s i)"
      and ve: "\<And>i. valid (s_cache s' i) = (i = f \<or> valid (s_cache s i))" for s'
    unfolding tracks_def
  proof (intro exI conjI)
    show "ginv q s' (ch(hash_key pd sec := f # ch (hash_key pd sec))) (f # lru) fl" by (rule g')
    have "map (key s') lru = map (key s) lru"
      using fg(4) by (intro map_cong) (auto simp: ke)
    then show "map (key s') (f # lru) = (pd, sec) # ks" by (simp add: ke ks)
    show "\<forall>i\<in>set (f # lru). valid (s_cache s' i)" using v by (auto simp: ve)
    show "length (f # lru) + length fl = CACHE_SIZE" using n fl0 by simp
  qed
  show ?thesis
  proof (cases x)
    case (Read p c od)
    with ps have [simp]: "p = pd" "c = sec" by simp_all
    let ?s2 = "snd (dev_read D pd f sec ?s1)"
    let ?s' = "installed_r f pd sec ?s2"
    from r Read have ok: "fst (dev_read D pd f sec ?s1) = RES_OK"
      by (cases "dev_read D pd f sec ?s1")
        (simp add: read_block_free[OF lk hd] Let_def split: if_splits)
    have g2: "ginv q ?s2 ch lru fl" using fg(2) by simp
    have nm2: "\<not> matches ?s2 pd sec i" if "i < CACHE_SIZE" for i
      using nm1[OF that] by (simp add: matches_def)
    have g': "ginv q ?s' (ch(hash_key pd sec := f # ch (hash_key pd sec))) (f # lru) fl"
      by (rule installed_r_ginv[OF g2 fg(3,4,5) nm2])
    have "tracks q ?s' ((pd, sec) # ks)"
      by (rule fin[OF g']) (simp_all add: installed_r_fields)
    moreover have "exec D x s = Some ?s'"
      using Read ok by (cases "dev_read D pd f sec ?s1")
        (simp add: read_block_free[OF lk hd] installed_r_def Let_def)
    ultimately show ?thesis using ps by simp
  next
    case (Write p c buf)
    with ps have [simp]: "p = pd" "c = sec" by simp_all
    let ?s' = "installed_w f pd sec buf ?s1"
    have g': "ginv q ?s' (ch(hash_key pd sec := f # ch (hash_key pd sec))) (f # lru) fl"
      by (rule installed_w_ginv[OF fg(2,3,4,5) nm1])
    have "tracks q ?s' ((pd, sec) # ks)"
      by (rule fin[OF g']) (simp_all add: installed_w_fields)
    moreover have "exec D x s = Some ?s'"
      using Write by (simp add: write_block_free[OF lk hd] installed_w_def)
    ultimately show ?thesis using ps by simp
  next
    case Init
    with a show ?thesis by simp
  next
    case (Flush fa ia)
    with a show ?thesis by simp
  qed
qed

lemma length_recency_snoc: "length (recency ks) \<le> length (recency (ks @ [k]))"
  by (simp add: recency_snoc length_remove1) arith

lemma tracks_run:
  fixes s0 :: "'d state"
  assumes t: "tracks q s0 []"
  shows "\<forall>x\<in>set ops. is_access x \<Longrightarrow> all_ok D ops s0 \<Longrightarrow>
         length (recency (map key_of ops)) \<le> CACHE_SIZE \<Longrightarrow>
         \<exists>s. run D ops s0 = Some s \<and> tracks q s (recency (map key_of ops))"
proof (induction ops rule: rev_induct)
  case Nil
  with t show ?case by simp
next
  case (snoc x ops)
  let ?ks = "recency (map key_of ops)"
  from snoc.prems have a: "\<forall>x\<in>set ops. is_access x" and ax: "is_access x" by simp_all
  from snoc.prems(2) have ok: "all_ok D ops s0" by (simp add: all_ok_append)
  from snoc.prems(3) length_recency_snoc[of "map key_of ops" "key_of x"]
  have len: "length ?ks \<le> CACHE_SIZE" by simp
  from snoc.IH[OF a ok len] obtain s where rs: "run D ops s0 = Some s" and ts: "tracks q s ?ks"
    by blast
  from snoc.prems(2) rs have rx: "exec_res D x s = Some RES_OK"
    by (simp add: all_ok_append)
  have rec: "recency (map key_of (ops @ [x])) = key_of x # remove1 (key_of x) ?ks"
    by (simp add: recency_snoc)
  show ?case
  proof (cases "key_of x \<in> set ?ks")
    case True
    from tracks_hit[OF ts ax True, of D] rs show ?thesis
      by (auto simp: run_append recency_snoc)
  next
    case False
    then have rm: "remove1 (key_of x) ?ks = ?ks" by (simp add: remove1_idem)
    from snoc.prems(3) have "length ?ks < CACHE_SIZE" by (simp add: recency_snoc rm)
    from tracks_miss_free[OF ts ax False this rx] rs show ?thesis
      by (auto simp: run_append recency_snoc rm)
  qed
qed

lemma init_tracks: "tracks (s_free_head s) (block_cache_init s) []"
  unfolding tracks_def using init_ginv[of s] by (intro exI[of _ "\<lambda>_. []"] exI[of _ "[]"]
      exI[of _ "rev [0..<CACHE_SIZE]"]) simp

lemma writes_of_snoc: "writes_of (ks @ [k]) buf = writes_of ks buf @ [Write (fst k) (snd k) buf]"
  by (simp add: writes_of_def)

lemma writes_of_keys [simp]: "map key_of (writes_of ks buf) = ks"
  by (simp add: writes_of_def comp_def)

lemma writes_of_access: "\<forall>x\<in>set (writes_of ks buf). is_access x"
  by (auto simp: writes_of_def)

lemma writes_of_no_init: "Init \<notin> set (writes_of ks buf)"
  by (auto simp: writes_of_def)

lemma recency_distinct: "distinct ks \<Longrightarrow> recency ks = rev ks"
proof (induction ks rule: rev_induct)
  case Nil
  then show ?case by simp
next
  case (snoc k ks)
  then have r: "recency ks = rev ks" and "k \<notin> set (rev ks)" by simp_all
  then have "remove1 k (rev ks) = rev ks" by (simp add: remove1_idem)
  with r show ?case by (simp add: recency_snoc)
qed

lemma tracks_free_head:
  assumes t: "tracks q s ks" and l: "length ks < CACHE_SIZE"
  shows "\<exists>f. s_free_head s = Some f \<and> f < CACHE_SIZE \<and> \<not> valid (s_cache s f)"
proof -
  from t obtain ch lru fl0 where g: "ginv q s ch lru fl0" and ks: "map (key s) lru = ks"
    and n: "length lru + length fl0 = CACHE_SIZE"
    unfolding tracks_def by blast
  from l ks n have "fl0 \<noteq> []" by auto
  then obtain f fl where fl0: "fl0 = f # fl" by (cases fl0) auto
  note fg = free_get_ok[OF g[unfolded fl0]]
  have "s_free_head s = Some f" using ginvD(3)[OF g] by (simp add: fl0 free_ok_def)
  with fg(3,6) show ?thesis by blast
qed

lemma tracks_full:
  assumes t: "tracks None s ks" and l: "length ks = CACHE_SIZE"
  shows "s_free_head s = None"
proof -
  from t obtain ch lru fl where g: "ginv None s ch lru fl" and ks: "map (key s) lru = ks"
    and n: "length lru + length fl = CACHE_SIZE"
    unfolding tracks_def by blast
  from l ks n have "fl = []" by auto
  with ginvD(3)[OF g] show ?thesis by (simp add: free_ok_def)
qed

lemma tracks_lookup_none:
  assumes t: "tracks q s ks" and k: "(pd, sec) \<notin> set ks"
  shows "hash_lookup pd sec s = Some None"
proof -
  from t obtain ch lru fl where g: "ginv q s ch lru fl" and ks: "map (key s) lru = ks"
    unfolding tracks_def by blast
  have "\<not> matches s pd sec i" if "i < CACHE_SIZE" for i
    using tracks_no_match[OF g _ that, of pd sec] k ks by simp
  then show ?thesis using lookup_none_iff[OF g] by blast
qed

text \<open>A write of a key that is not cached, while an entry is free, takes the free head.\<close>

lemma write_miss_free:
  fixes s :: "'d state"
  assumes t: "tracks q s ks" and k: "(pd, sec) \<notin> set ks" and l: "length ks < CACHE_SIZE"
  shows "\<exists>f. f < CACHE_SIZE \<and> \<not> valid (s_cache s f) \<and> s_free_head s = Some f \<and>
           block_cache_write_block D pd sec buf s =
             Some (RES_OK, installed_w f pd sec buf (s\<lparr>s_free_head := hash_next (s_cache s f)\<rparr>))"
proof -
  from tracks_free_head[OF t l] obtain f where f: "s_free_head s = Some f" "f < CACHE_SIZE"
    "\<not> valid (s_cache s f)" by blast
  from write_block_free[OF tracks_lookup_none[OF t k] f(1), of D buf] f show ?thesis
    by (auto simp: installed_w_def)
qed

lemma fill_writes:
  fixes s :: "'d state"
  shows "distinct ks \<Longrightarrow> length ks \<le> CACHE_SIZE \<Longrightarrow>
         \<exists>t. run D (writes_of ks buf) (block_cache_init s) = Some t \<and>
             all_ok D (writes_of ks buf) (block_cache_init s) \<and>
             tracks (s_free_head s) t (rev ks) \<and> all_dirty t \<and>
             io_log t = io_log s \<and> dev t = dev s"
proof (induction ks rule: rev_induct)
  case Nil
  have "all_dirty (block_cache_init s)"
    by (simp add: all_dirty_def init_fields init_entry_def zero_entry_def)
  then show ?case using init_tracks[of s] by (simp add: writes_of_def init_fields)
next
  case (snoc k ks)
  obtain pd sec where k: "k = (pd, sec)" by (cases k)
  from snoc.prems have d: "distinct ks" and l: "length ks < CACHE_SIZE" and nk: "(pd, sec) \<notin> set (rev ks)"
    by (simp_all add: k)
  from snoc.IH[OF d] l obtain t where rt: "run D (writes_of ks buf) (block_cache_init s) = Some t"
    and ok: "all_ok D (writes_of ks buf) (block_cache_init s)"
    and tr: "tracks (s_free_head s) t (rev ks)" and ad: "all_dirty t"
    and io: "io_log t = io_log s" "dev t = dev s"
    by auto
  from l have l': "length (rev ks) < CACHE_SIZE" by simp
  from write_miss_free[OF tr nk l', of D buf] obtain f where f: "f < CACHE_SIZE"
    and w: "block_cache_write_block D pd sec buf t =
             Some (RES_OK, installed_w f pd sec buf (t\<lparr>s_free_head := hash_next (s_cache t f)\<rparr>))"
    by blast
  let ?t' = "installed_w f pd sec buf (t\<lparr>s_free_head := hash_next (s_cache t f)\<rparr>)"
  have rx: "exec_res D (Write pd sec buf) t = Some RES_OK" using w by simp
  have ex: "exec D (Write pd sec buf) t = Some ?t'" using w by simp
  have "\<exists>s'. exec D (Write pd sec buf) t = Some s' \<and>
          tracks (s_free_head s) s' (key_of (Write pd sec buf) # rev ks)"
    by (rule tracks_miss_free[OF tr _ _ l' rx]) (use nk in simp_all)
  then have tr': "tracks (s_free_head s) ?t' (rev (ks @ [k]))"
    unfolding ex by (simp add: k)
  have ad': "all_dirty ?t'"
    using ad by (simp add: all_dirty_def installed_w_fields)
  have "run D (writes_of (ks @ [k]) buf) (block_cache_init s) = Some ?t'"
    by (simp add: writes_of_snoc run_append k rt w)
  moreover have "all_ok D (writes_of (ks @ [k]) buf) (block_cache_init s)"
    using ok by (simp add: writes_of_snoc all_ok_append k rt w)
  moreover have "io_log ?t' = io_log s" "dev ?t' = dev s"
    using io by (simp_all add: installed_w_fields)
  ultimately show ?case using tr' ad' by blast
qed

text \<open>The result of a write, in each of its cases.\<close>

lemma write_result:
  fixes s :: "'d state"
  assumes g: "ginv None s ch lru fl"
  shows "\<exists>r s1. block_cache_write_block D pd sec buf s = Some (r, s1) \<and>
           (r = RES_OK) = can_store D pd sec s \<and>
           (r \<noteq> RES_OK \<longrightarrow> hash_lookup pd sec s1 = Some None \<and> s_cache s1 = s_cache s)"
proof -
  from lookup_total[OF g] obtain e where l: "hash_lookup pd sec s = Some e" by blast
  show ?thesis
  proof (cases e)
    case (Some i)
    then show ?thesis using l by (simp add: block_cache_write_block_def can_store_def Let_def)
  next
    case None
    note l = l[unfolded None]
    show ?thesis
    proof (cases "s_free_head s")
      case (Some f)
      from write_block_free[OF l Some, of D buf] Some show ?thesis
        by (simp add: can_store_def)
    next
      case nf: None
      note wb = write_block_evict[OF l nf, of D buf]
      have keep: "hash_lookup pd sec t = Some None"
        if "ginv None t ch lru fl" "matches t pd sec = matches s pd sec" for t :: "'d state"
        using lookup_none_iff[OF that(1), of pd sec] lookup_none_iff[OF g, of pd sec] l that(2)
        by simp
      show ?thesis
      proof (cases "s_lru_tail s")
        case None
        let ?s1 = "s\<lparr>s_evict_error := RES_PARERR\<rparr>"
        have "hash_lookup pd sec ?s1 = Some None"
          by (rule keep) (use g in \<open>simp_all add: matches_def fun_eq_iff\<close>)
        then show ?thesis
          using wb by (simp add: evict_entry_empty[OF None] can_store_def l nf None)
      next
        case (Some e)
        from lru_ok_tail[OF ginvD(2)[OF g]] Some have el: "e \<in> set lru"
          by (cases "lru = []") auto
        show ?thesis
        proof (cases "needs_wb s e")
          case False
          then have nv: "\<not> (valid (s_cache s e) \<and> dirty (s_cache s e))" by (simp add: needs_wb_def)
          from reclaim_ok[OF g el] obtain as where "reclaim e s = Some (Some e, reclaimed as e s)"
            by blast
          then show ?thesis
            using wb False by (simp add: evict_entry_clean[OF Some nv] can_store_def l nf Some)
        next
          case True
          then have v: "valid (s_cache s e)" "dirty (s_cache s e)" by (simp_all add: needs_wb_def)
          show ?thesis
          proof (cases "fst (dev_write D e s) = RES_OK")
            case ok: True
            let ?s' = "(snd (dev_write D e s))\<lparr>s_evict_error := RES_OK\<rparr>"
            have g': "ginv None ?s' ch lru fl" using g by simp
            from reclaim_ok[OF g' el] obtain as where "reclaim e ?s' = Some (Some e, reclaimed as e ?s')"
              by blast
            then show ?thesis
              using wb True ok
              by (simp add: evict_entry_wrote[OF Some v ok] can_store_def l nf Some)
          next
            case bad: False
            let ?s1 = "(snd (dev_write D e s))\<lparr>s_evict_error := fst (dev_write D e s)\<rparr>"
            have "hash_lookup pd sec ?s1 = Some None"
              by (rule keep) (use g in \<open>simp_all add: matches_def fun_eq_iff\<close>)
            then show ?thesis
              using wb True bad
              by (simp add: evict_entry_fail[OF Some v bad] can_store_def l nf Some)
          qed
        qed
      qed
    qed
  qed
qed

text \<open>
  C6, as the code has it. After \<open>block_cache_init\<close> and any calls of the three other
  functions, \<open>block_cache_write_block\<close> of a 512-byte buffer returns, and it returns
  \<open>RES_OK\<close> exactly when it can store the block (\<open>can_store\<close>). When it does, the
  \<open>block_cache_read_block\<close> of the same drive and sector that follows returns \<open>RES_OK\<close>
  with exactly the buffer written and changes nothing in the state, the device and
  its log included: no device access takes place. When it does not, the pool is as
  before and the key is still not cached.
\<close>

theorem C6_write_then_read:
  fixes s :: "'d state"
  assumes ni: "Init \<notin> set ops" and run: "run D ops (block_cache_init (boot d)) = Some s"
    and lb: "length buf = BLOCK_SIZE" and lo: "length out = BLOCK_SIZE"
  shows "\<exists>r s1. block_cache_write_block D pd sec buf s = Some (r, s1) \<and>
           (r = RES_OK) = can_store D pd sec s \<and>
           (if r = RES_OK
            then block_cache_read_block D pd sec (Some out) s1 = Some (RES_OK, Some buf, s1)
            else hash_lookup pd sec s1 = Some None \<and> s_cache s1 = s_cache s)"
proof -
  from run_inv[OF init_boot_inv ni, of D d] run have "cache_inv s" by simp
  then obtain ch lru fl where g: "ginv None s ch lru fl" by (auto simp: cache_inv_def)
  from write_result[OF g, of D pd sec buf] obtain r s1 where
    w: "block_cache_write_block D pd sec buf s = Some (r, s1)"
    and c: "(r = RES_OK) = can_store D pd sec s"
    and f: "r \<noteq> RES_OK \<longrightarrow> hash_lookup pd sec s1 = Some None \<and> s_cache s1 = s_cache s"
    by blast
  have "block_cache_read_block D pd sec (Some out) s1 = Some (RES_OK, Some buf, s1)"
    if "r = RES_OK"
    using write_ok_then_read[OF ni run lb lo] w that by simp
  with w c f show ?thesis by auto
qed

lemma of_nat_inj_small:
  "a < 128 \<Longrightarrow> b < 128 \<Longrightarrow> ((of_nat a :: 64 word) = of_nat b) = (a = b)"
  by (simp add: word_of_nat_eq_iff take_bit_nat_eq_self)

lemma fill_keys_facts:
  "distinct fill_keys" "length fill_keys = CACHE_SIZE" "(0, 128) \<notin> set fill_keys"
  "\<forall>k\<in>set fill_keys. fst k = 0"
proof -
  have "inj_on (\<lambda>n. (0 :: BYTE, of_nat n :: LBA_t)) (set [0..<CACHE_SIZE])"
    by (rule inj_onI) (simp add: CACHE_SIZE_def of_nat_inj_small)
  then show "distinct fill_keys" by (simp add: fill_keys_def distinct_map)
  show "length fill_keys = CACHE_SIZE" by (simp add: fill_keys_def)
  have "(of_nat n :: LBA_t) \<noteq> 128" if "n < 128" for n
  proof -
    from that have "unat (of_nat n :: LBA_t) = n" by (simp add: unat_of_nat)
    with that show ?thesis by auto
  qed
  then show "(0, 128) \<notin> set fill_keys" by (auto simp: fill_keys_def CACHE_SIZE_def)
  show "\<forall>k\<in>set fill_keys. fst k = 0" by (auto simp: fill_keys_def)
qed

lemma one_write_lookup: "hash_lookup 0 5 one_write = Some (Some 127)"
  by (rule lookup_some_iff[OF one_write_ginv])
     (simp_all add: CACHE_SIZE_def matches_def one_write_fields)

lemma blk_facts: "length blk0 = BLOCK_SIZE" "length blk1 = BLOCK_SIZE" "blk1 \<noteq> blk0"
  by (simp_all add: blk0_def blk1_def BLOCK_SIZE_def)

theorem C6_write_then_read_witness:
  "Init \<notin> set [Write 0 5 blk0] \<and>
   run ok_drivers [Write 0 5 blk0] (block_cache_init (boot ())) = Some one_write \<and>
   length blk1 = BLOCK_SIZE \<and> length blk0 = BLOCK_SIZE \<and> blk1 \<noteq> blk0 \<and>
   can_store ok_drivers 0 5 one_write \<and>
   (\<exists>s1. block_cache_write_block ok_drivers 0 5 blk1 one_write = Some (RES_OK, s1) \<and>
         block_cache_read_block ok_drivers 0 5 (Some blk0) s1 = Some (RES_OK, Some blk1, s1))"
proof -
  have 1: "Init \<notin> set [Write 0 5 blk0]" by simp
  have c: "can_store ok_drivers 0 5 one_write" by (simp add: can_store_def one_write_lookup)
  from C6_write_then_read[OF 1 one_write_reached blk_facts(2,1), of 0 5] c
  have "\<exists>s1. block_cache_write_block ok_drivers 0 5 blk1 one_write = Some (RES_OK, s1) \<and>
         block_cache_read_block ok_drivers 0 5 (Some blk0) s1 = Some (RES_OK, Some blk1, s1)"
    by auto
  with 1 one_write_reached blk_facts c show ?thesis by simp
qed

lemma bad_write_fails:
  "pdrv (s_cache s e) = 0 \<Longrightarrow> fst (dev_write bad_drivers e s) = RES_ERROR"
  by (simp add: dev_write_eq disk_write_no_cache_def bad_drivers_def DEV_SD_def)

text \<open>
  With a device that fails, a full cache of dirty blocks of drive 0 serves no miss:
  the write-back of the LRU tail fails, and the cache stays as it is.
\<close>

lemma full_fail:
  assumes t: "tracks None s ks" and l: "length ks = CACHE_SIZE" and k: "(pd, sec) \<notin> set ks"
    and ad: "all_dirty s" and z: "\<forall>k\<in>set ks. fst k = 0"
  shows "\<exists>s1. block_cache_write_block bad_drivers pd sec buf s = Some (RES_ERROR, s1) \<and>
           block_cache_read_block bad_drivers pd sec od s = Some (RES_ERROR, od, s1) \<and>
           tracks None s1 ks \<and> all_dirty s1"
proof -
  from t obtain ch lru fl where g: "ginv None s ch lru fl" and ks: "map (key s) lru = ks"
    and v: "\<forall>i\<in>set lru. valid (s_cache s i)" and n: "length lru + length fl = CACHE_SIZE"
    unfolding tracks_def by blast
  from l ks have ne: "lru \<noteq> []" by (auto simp: CACHE_SIZE_def)
  let ?e = "last lru"
  have el: "?e \<in> set lru" using ne by simp
  have tl: "s_lru_tail s = Some ?e" using lru_ok_tail[OF ginvD(2)[OF g]] ne by simp
  have ve: "valid (s_cache s ?e)" using v el by blast
  have de: "dirty (s_cache s ?e)" using ad ve lru_bound[OF g el] by (simp add: all_dirty_def)
  have "key s ?e \<in> set ks" using el ks by auto
  with z have "fst (key s ?e) = 0" by blast
  then have pe: "pdrv (s_cache s ?e) = 0" by (simp add: key_def)
  have bad: "fst (dev_write bad_drivers ?e s) = RES_ERROR" by (rule bad_write_fails[OF pe])
  then have bad': "fst (dev_write bad_drivers ?e s) \<noteq> RES_OK" by simp
  let ?s1 = "(snd (dev_write bad_drivers ?e s))\<lparr>s_evict_error := RES_ERROR\<rparr>"
  have ev: "evict_entry bad_drivers s = Some (None, ?s1)"
    using evict_entry_fail[OF tl ve de bad'] by (simp add: bad)
  note lk = tracks_lookup_none[OF t k]
  note nf = tracks_full[OF t l]
  have w: "block_cache_write_block bad_drivers pd sec buf s = Some (RES_ERROR, ?s1)"
    by (simp add: write_block_evict[OF lk nf] ev)
  have r: "block_cache_read_block bad_drivers pd sec od s = Some (RES_ERROR, od, ?s1)"
    by (simp add: read_block_evict[OF lk nf] ev)
  have t1: "tracks None ?s1 ks"
    unfolding tracks_def
    by (intro exI[of _ ch] exI[of _ lru] exI[of _ fl]) (use g ks v n in simp)
  have a1: "all_dirty ?s1" using ad by (simp add: all_dirty_def)
  from w r t1 a1 show ?thesis by blast
qed

text \<open>
  The claim C6 as stated fails when the write cannot store the block. After
  \<open>block_cache_init\<close> and writes of the 128 blocks 0..127 of drive 0, on a device
  whose writes fail, \<open>block_cache_write_block(0, 128, blk1)\<close> returns \<open>RES_ERROR\<close>
  (the write-back of the LRU tail failed), and the \<open>block_cache_read_block(0, 128, out)\<close>
  that follows returns \<open>RES_ERROR\<close> and leaves \<open>out\<close> as it was.
\<close>

theorem C6_counterexample:
  "\<exists>s s1 s2. run bad_drivers (writes_of fill_keys blk0) (block_cache_init (boot ())) = Some s \<and>
     block_cache_write_block bad_drivers 0 128 blk1 s = Some (RES_ERROR, s1) \<and>
     block_cache_read_block bad_drivers 0 128 (Some blk0) s1 = Some (RES_ERROR, Some blk0, s2) \<and>
     blk1 \<noteq> blk0"
proof -
  from fill_writes[OF fill_keys_facts(1), of bad_drivers blk0 "boot ()"] fill_keys_facts(2)
  obtain s where rs: "run bad_drivers (writes_of fill_keys blk0) (block_cache_init (boot ())) = Some s"
    and t: "tracks (s_free_head (boot ())) s (rev fill_keys)" and ad: "all_dirty s"
    by auto
  have t0: "tracks None s (rev fill_keys)" using t by (simp add: boot_def)
  have l: "length (rev fill_keys) = CACHE_SIZE" by (simp add: fill_keys_facts)
  have k: "(0, 128) \<notin> set (rev fill_keys)" using fill_keys_facts(3) by simp
  have z: "\<forall>k\<in>set (rev fill_keys). fst k = 0" using fill_keys_facts(4) by simp
  from full_fail[OF t0 l k ad z, of blk1] obtain s1 where
    w: "block_cache_write_block bad_drivers 0 128 blk1 s = Some (RES_ERROR, s1)"
    and t1: "tracks None s1 (rev fill_keys)" and a1: "all_dirty s1"
    by blast
  from full_fail[OF t1 l k a1 z, of blk1 "Some blk0"] obtain s2 where
    "block_cache_read_block bad_drivers 0 128 (Some blk0) s1 = Some (RES_ERROR, Some blk0, s2)"
    by blast
  with rs w blk_facts(3) show ?thesis by blast
qed

lemma remove1_last:
  "distinct xs \<Longrightarrow> xs \<noteq> [] \<Longrightarrow> remove1 (last xs) xs = butlast xs"
proof (induction xs)
  case Nil
  then show ?case by simp
next
  case (Cons a xs)
  then show ?case by (cases "xs = []") auto
qed

lemma key_reclaimed [simp]: "key (reclaimed as e s) = key s"
  by (simp add: key_def reclaimed_fields fun_eq_iff)

lemma tracks_tail:
  assumes t: "tracks None s ks" and l: "length ks = CACHE_SIZE"
  shows "\<exists>e. s_lru_tail s = Some e \<and> e < CACHE_SIZE \<and> valid (s_cache s e) \<and> key s e = last ks"
proof -
  from t obtain ch lru fl where g: "ginv None s ch lru fl" and ks: "map (key s) lru = ks"
    and v: "\<forall>i\<in>set lru. valid (s_cache s i)"
    unfolding tracks_def by blast
  from l ks have ne: "lru \<noteq> []" by (auto simp: CACHE_SIZE_def)
  then have el: "last lru \<in> set lru" by simp
  have "s_lru_tail s = Some (last lru)" using lru_ok_tail[OF ginvD(2)[OF g]] ne by simp
  moreover have "key s (last lru) = last ks" using ks ne by (auto simp: last_map)
  ultimately show ?thesis using v el lru_bound[OF g el] by blast
qed

lemma tracks_cached:
  assumes t: "tracks q s ks" and k: "k \<in> set ks"
  shows "\<exists>i. hash_lookup (fst k) (snd k) s = Some (Some i) \<and> key s i = k \<and> i < CACHE_SIZE"
proof -
  from t obtain ch lru fl where g: "ginv q s ch lru fl" and ks: "map (key s) lru = ks"
    and v: "\<forall>i\<in>set lru. valid (s_cache s i)"
    unfolding tracks_def by blast
  from k ks obtain i where i: "i \<in> set lru" and ki: "key s i = k" by auto
  from v i ki have "matches s (fst k) (snd k) i" by (simp add: matches_key)
  from lookup_some_iff[OF g lru_bound[OF g i] this] ki lru_bound[OF g i] show ?thesis by blast
qed

text \<open>
  An access to a key that is not cached, in a full cache whose LRU tail is dirty and
  cannot be written back: the access returns the error of the device write, and the
  tail stays cached.
\<close>

lemma evict_fail_step:
  fixes s :: "'d state"
  assumes t: "tracks None s ks" and l: "length ks = CACHE_SIZE" and a: "is_access x"
    and k: "key_of x \<notin> set ks" and tl: "s_lru_tail s = Some e"
    and dd: "dirty (s_cache s e)" and bad: "fst (dev_write D e s) \<noteq> RES_OK"
  shows "\<exists>s'. exec_res D x s = Some (fst (dev_write D e s)) \<and> exec D x s = Some s' \<and>
           io_log s' = io_log s @ [wb_try s e (fst (dev_write D e s))] \<and>
           hash_lookup (fst (key s e)) (snd (key s e)) s' = Some (Some e) \<and>
           tracks None s' ks"
proof -
  obtain pd sec where ps: "key_of x = (pd, sec)" by (cases "key_of x")
  from tracks_tail[OF t l] tl have ec: "e < CACHE_SIZE" and ve: "valid (s_cache s e)"
    and kl: "key s e = last ks" by auto
  let ?s1 = "(snd (dev_write D e s))\<lparr>s_evict_error := fst (dev_write D e s)\<rparr>"
  note ev = evict_entry_fail[OF tl ve dd bad]
  note lk = tracks_lookup_none[OF t k[unfolded ps]]
  note nf = tracks_full[OF t l]
  from t obtain ch lru fl where g: "ginv None s ch lru fl" and ks: "map (key s) lru = ks"
    and v: "\<forall>i\<in>set lru. valid (s_cache s i)" and n: "length lru + length fl = CACHE_SIZE"
    unfolding tracks_def by blast
  have g1: "ginv None ?s1 ch lru fl" using g by simp
  have t1: "tracks None ?s1 ks"
    unfolding tracks_def
    by (intro exI[of _ ch] exI[of _ lru] exI[of _ fl]) (use g ks v n in simp)
  have "matches ?s1 (fst (key s e)) (snd (key s e)) e" using ve by (simp add: matches_key)
  note hit = lookup_some_iff[OF g1 ec this]
  have io: "io_log ?s1 = io_log s @ [wb_try s e (fst (dev_write D e s))]"
    by (simp add: dev_write_log wb_try_def)
  show ?thesis
  proof (cases x)
    case (Read p c od)
    with ps have [simp]: "p = pd" "c = sec" by simp_all
    from Read hit io t1 show ?thesis
      by (intro exI[of _ ?s1]) (simp add: read_block_evict[OF lk nf] ev)
  next
    case (Write p c buf)
    with ps have [simp]: "p = pd" "c = sec" by simp_all
    from Write hit io t1 show ?thesis
      by (intro exI[of _ ?s1]) (simp add: write_block_evict[OF lk nf] ev)
  next
    case Init
    with a show ?thesis by simp
  next
    case (Flush fa ia)
    with a show ?thesis by simp
  qed
qed

text \<open>
  An access to a key that is not cached, in a full cache whose LRU tail can be
  evicted: the tail is written back first when it is dirty, it leaves the hash table
  and the LRU list, and its entry takes the new key (unless the device read of a
  read access fails).
\<close>

lemma evict_step:
  fixes s :: "'d state"
  assumes t: "tracks None s ks" and l: "length ks = CACHE_SIZE" and a: "is_access x"
    and k: "key_of x \<notin> set ks" and tle: "s_lru_tail s = Some e"
    and wb: "dirty (s_cache s e) \<Longrightarrow> fst (dev_write D e s) = RES_OK"
  shows "\<exists>r s'. exec_res D x s = Some r \<and> exec D x s = Some s' \<and>
           io_log s' = io_log s @ (if dirty (s_cache s e) then [wb_event s e] else []) @ dev_reads x r \<and>
           hash_lookup (fst (key s e)) (snd (key s e)) s' = Some None \<and>
           (is_write x \<longrightarrow> r = RES_OK) \<and>
           (r = RES_OK \<longrightarrow>
              key s' e = key_of x \<and>
              hash_lookup (fst (key_of x)) (snd (key_of x)) s' = Some (Some e) \<and>
              list_all (cached_key s') (butlast ks) \<and>
              tracks None s' (key_of x # butlast ks))"
proof -
  from t obtain ch lru fl where g: "ginv None s ch lru fl" and ks: "map (key s) lru = ks"
    and v: "\<forall>i\<in>set lru. valid (s_cache s i)" and n: "length lru + length fl = CACHE_SIZE"
    unfolding tracks_def by blast
  obtain pd sec where ps: "key_of x = (pd, sec)" by (cases "key_of x")
  from l ks n have fl: "fl = []" by auto
  from l ks have ne: "lru \<noteq> []" by (auto simp: CACHE_SIZE_def)
  have ll: "length lru = CACHE_SIZE" using l ks by auto
  have tl: "s_lru_tail s = Some (last lru)" using lru_ok_tail[OF ginvD(2)[OF g]] ne by simp
  with tle have e: "last lru = e" by simp
  have el: "e \<in> set lru" using ne e by auto
  have ec: "e < CACHE_SIZE" by (rule lru_bound[OF g el])
  have ve: "valid (s_cache s e)" using v el by blast
  have kl: "key s e = last ks" using ks ne e by (auto simp: last_map)
  have d: "distinct lru" using ginvD(2)[OF g] by (simp add: lru_ok_def)
  have rm: "remove1 e lru = butlast lru" using remove1_last[OF d ne] e by simp
  have sp: "lru = butlast lru @ [e]" using ne e by (metis append_butlast_last_id)
  have eb: "e \<notin> set (butlast lru)"
  proof
    assume "e \<in> set (butlast lru)"
    moreover from d sp have "distinct (butlast lru @ [e])" by simp
    ultimately show False by simp
  qed
  have bs: "set (butlast lru) \<subseteq> set lru" by (auto dest: in_set_butlastD)
  note lk = tracks_lookup_none[OF t k[unfolded ps]]
  note nf = tracks_full[OF t l]
  note inj = key_inj[OF g v]
  let ?s0 = "if dirty (s_cache s e) then (snd (dev_write D e s))\<lparr>s_evict_error := RES_OK\<rparr> else s"
  have g0: "ginv None ?s0 ch lru []" using g fl by simp
  from reclaim_ok[OF g0 el] obtain as bs' where
    rc: "reclaim e ?s0 = Some (Some e, reclaimed as e ?s0)"
    and g1: "ginv None (reclaimed as e ?s0) (ch(hk ?s0 e := as @ bs')) (butlast lru) []"
    unfolding rm by blast
  let ?s1 = "reclaimed as e ?s0"
  let ?ch1 = "ch(hk ?s0 e := as @ bs')"
  have ev: "evict_entry D s = Some (Some e, ?s1)"
  proof (cases "dirty (s_cache s e)")
    case True
    from evict_entry_wrote[OF tle ve True wb[OF True]] rc True show ?thesis by simp
  next
    case False
    then have "\<not> (valid (s_cache s e) \<and> dirty (s_cache s e))" by simp
    from evict_entry_clean[OF tle this, of D] rc False show ?thesis by simp
  qed
  have k0: "key ?s0 = key s" by simp
  have v0: "valid (s_cache ?s0 i) = valid (s_cache s i)" for i by simp
  have k1: "key ?s1 = key s" by (simp only: key_reclaimed k0)
  have v1: "valid (s_cache ?s1 i) = (i \<noteq> e \<and> valid (s_cache s i))" for i
    by (simp only: reclaimed_fields v0)
  have io1: "io_log ?s1 = io_log s @ (if dirty (s_cache s e) then [wb_event s e] else [])"
    using wb by (simp add: reclaimed_fields dev_write_log wb_event_def)
  have nm1: "\<not> matches ?s1 pd sec i" if "i < CACHE_SIZE" for i
  proof
    assume "matches ?s1 pd sec i"
    then have "valid (s_cache s i)" "key s i = (pd, sec)"
      unfolding matches_key k1 v1 by simp_all
    then have "matches s pd sec i" by (simp add: matches_key)
    with tracks_no_match[OF g _ that, of pd sec] k ks ps show False by simp
  qed
  have gone: "hash_lookup (fst (key s e)) (snd (key s e)) s' = Some None"
    if g': "ginv None s' ch' lru' []"
      and ke: "\<And>i. i \<noteq> e \<Longrightarrow> key s' i = key s i"
      and vv: "\<And>i. i \<noteq> e \<Longrightarrow> valid (s_cache s' i) \<Longrightarrow> valid (s_cache s i)"
      and ee: "\<not> valid (s_cache s' e) \<or> key s' e = (pd, sec)"
    for s' :: "'d state" and ch' lru'
  proof -
    have "\<not> matches s' (fst (key s e)) (snd (key s e)) i" if i: "i < CACHE_SIZE" for i
    proof
      assume m: "matches s' (fst (key s e)) (snd (key s e)) i"
      then have vi: "valid (s_cache s' i)" and ki: "key s' i = key s e"
        by (simp_all add: matches_key)
      show False
      proof (cases "i = e")
        case True
        with ki vi ee have "key s e = (pd, sec)" by auto
        moreover have "key s e \<in> set ks" using el ks by auto
        ultimately show False using k ps by simp
      next
        case False
        from vv[OF False vi] have "valid (s_cache s i)" .
        with ginvD(5)[OF g] i have il: "i \<in> set lru" by (simp add: vd_ok_def)
        from ki False have "key s i = key s e" by (simp add: ke)
        with inj il el have "i = e" by (auto dest: inj_onD)
        with False show False by simp
      qed
    qed
    then show ?thesis using lookup_none_iff[OF g'] by blast
  qed
  have fin: "hash_lookup (fst (key s e)) (snd (key s e)) s' = Some None \<and>
           key s' e = (pd, sec) \<and>
           hash_lookup pd sec s' = Some (Some e) \<and>
           list_all (cached_key s') (butlast ks) \<and>
           tracks None s' ((pd, sec) # butlast ks)"
    if g': "ginv None s' (?ch1(hash_key pd sec := e # ?ch1 (hash_key pd sec))) (e # butlast lru) []"
      and ke: "\<And>i. key s' i = (if i = e then (pd, sec) else key s i)"
      and vv: "\<And>i. valid (s_cache s' i) = (i = e \<or> valid (s_cache s i))" for s' :: "'d state"
  proof (intro conjI)
    show "key s' e = (pd, sec)" by (simp add: ke)
    have mb: "map (key s') (butlast lru) = butlast ks"
    proof -
      have "map (key s') (butlast lru) = map (key s) (butlast lru)"
        using eb by (intro map_cong) (auto simp: ke)
      then show ?thesis using ks by (simp add: map_butlast)
    qed
    show "tracks None s' ((pd, sec) # butlast ks)"
      unfolding tracks_def
    proof (intro exI conjI)
      show "ginv None s' (?ch1(hash_key pd sec := e # ?ch1 (hash_key pd sec))) (e # butlast lru) []"
        by (rule g')
      show "map (key s') (e # butlast lru) = (pd, sec) # butlast ks" by (simp add: ke mb)
      show "\<forall>i\<in>set (e # butlast lru). valid (s_cache s' i)" using v bs by (auto simp: vv)
      show "length (e # butlast lru) + length ([] :: nat list) = CACHE_SIZE"
        using ll by (simp add: CACHE_SIZE_def)
    qed
    show "hash_lookup (fst (key s e)) (snd (key s e)) s' = Some None"
      by (rule gone[OF g']) (simp_all add: ke vv)
    have "matches s' pd sec e" by (simp add: matches_key ke vv)
    then show "hash_lookup pd sec s' = Some (Some e)" by (rule lookup_some_iff[OF g' ec])
    have "cached_key s' k'" if "k' \<in> set (butlast ks)" for k'
    proof -
      from that have "k' \<in> set (map (key s') (butlast lru))" by (simp only: mb)
      then obtain i where ib: "i \<in> set (butlast lru)" and ki: "key s' i = k'" by auto
      from ib bs have il: "i \<in> set lru" by blast
      have "matches s' (fst k') (snd k') i"
        using v il ki by (simp add: matches_key vv)
      from lookup_some_iff[OF g' lru_bound[OF g il] this]
      show ?thesis by (simp add: cached_key_def)
    qed
    then show "list_all (cached_key s') (butlast ks)" by (simp add: list_all_iff)
  qed
  have e1: "e \<notin> set (butlast lru)" "e \<notin> set ([] :: nat list)" using eb by simp_all
  show ?thesis
  proof (cases x)
    case (Read p c od)
    with ps have [simp]: "p = pd" "c = sec" by simp_all
    let ?r = "fst (dev_read D pd e sec ?s1)"
    let ?s2 = "snd (dev_read D pd e sec ?s1)"
    let ?s' = "installed_r e pd sec ?s2"
    have g2: "ginv None ?s2 ?ch1 (butlast lru) []" using g1 by simp
    have io2: "io_log ?s2 = io_log s @ (if dirty (s_cache s e) then [wb_event s e] else []) @ dev_reads x ?r"
      by (simp add: dev_read_eq io1 Read)
    show ?thesis
    proof (cases "?r = RES_OK")
      case ok: True
      have nm2: "\<not> matches ?s2 pd sec i" if "i < CACHE_SIZE" for i
        using nm1[OF that] by (simp add: matches_def)
      have g': "ginv None ?s' (?ch1(hash_key pd sec := e # ?ch1 (hash_key pd sec))) (e # butlast lru) []"
        by (rule installed_r_ginv[OF g2 ec e1 nm2])
      have ke: "key ?s' i = (if i = e then (pd, sec) else key s i)" for i
        by (simp only: installed_r_fields key_simps k1)
      have vv: "valid (s_cache ?s' i) = (i = e \<or> valid (s_cache s i))" for i
        unfolding installed_r_fields dev_read_fields v1 by auto
      have ex: "block_cache_read_block D pd sec od s =
          Some (RES_OK, map_option (\<lambda>out. memcpy out (data (s_cache ?s' e))) od, ?s')"
        using ok by (simp add: read_block_evict[OF lk nf] ev)
      have io: "io_log ?s' = io_log s @ (if dirty (s_cache s e) then [wb_event s e] else []) @ dev_reads x RES_OK"
        using io2 ok by (simp add: installed_r_fields)
      from fin[OF g' ke vv] io show ?thesis
        by (intro exI[of _ RES_OK] exI[of _ ?s']) (simp add: Read ex ps)
    next
      case bad: False
      have ex: "block_cache_read_block D pd sec od s = Some (?r, od, ?s2)"
        using bad by (simp add: read_block_evict[OF lk nf] ev)
      have "hash_lookup (fst (key s e)) (snd (key s e)) ?s2 = Some None"
        by (rule gone[OF g2]) (simp_all add: k1 v1)
      with io2 bad show ?thesis
        by (intro exI[of _ ?r] exI[of _ ?s2]) (simp add: Read ex)
    qed
  next
    case (Write p c buf)
    with ps have [simp]: "p = pd" "c = sec" by simp_all
    let ?s' = "installed_w e pd sec buf ?s1"
    have g': "ginv None ?s' (?ch1(hash_key pd sec := e # ?ch1 (hash_key pd sec))) (e # butlast lru) []"
      by (rule installed_w_ginv[OF g1 ec e1 nm1])
    have ke: "key ?s' i = (if i = e then (pd, sec) else key s i)" for i
      by (simp only: installed_w_fields k1)
    have vv: "valid (s_cache ?s' i) = (i = e \<or> valid (s_cache s i))" for i
      unfolding installed_w_fields v1 by auto
    have ex: "block_cache_write_block D pd sec buf s = Some (RES_OK, ?s')"
      by (simp add: write_block_evict[OF lk nf] ev)
    have io: "io_log ?s' = io_log s @ (if dirty (s_cache s e) then [wb_event s e] else []) @ dev_reads x RES_OK"
      by (simp add: installed_w_fields io1 Write)
    from fin[OF g' ke vv] io show ?thesis
      by (intro exI[of _ RES_OK] exI[of _ ?s']) (simp add: Write ex ps)
  next
    case Init
    with a show ?thesis by simp
  next
    case (Flush fa ia)
    with a show ?thesis by simp
  qed
qed

text \<open>
  C8, as the code has it. The cache has been filled: after \<open>block_cache_init\<close>, the
  accesses \<open>ops\<close> have all returned \<open>RES_OK\<close> and have touched 128 different keys. An
  access \<open>x\<close> to one further key finds the LRU tail \<open>e\<close>, which holds the least
  recently touched key. If \<open>e\<close> is dirty and its write-back fails, the access returns
  that error after this one device write, and the key of \<open>e\<close> stays cached. Otherwise
  the device log grows by exactly one device write of \<open>e\<close> if \<open>e\<close> was dirty and by
  none if it was clean, followed by the device read of a read access; the key of \<open>e\<close>
  is no longer found by a lookup; a write access returns \<open>RES_OK\<close>; and when the access
  returns \<open>RES_OK\<close> the entry \<open>e\<close> holds the new key and every other key is still cached.
\<close>

theorem C8_lru_eviction:
  fixes s :: "'d state"
  assumes acc: "list_all is_access ops" and ax: "is_access x"
    and run: "run D ops (block_cache_init (boot d)) = Some s"
    and ok: "all_ok D ops (block_cache_init (boot d))"
    and full: "length (recency (map key_of ops)) = CACHE_SIZE"
    and new: "key_of x \<notin> set (map key_of ops)"
  shows "\<exists>e r s'. s_lru_tail s = Some e \<and> valid (s_cache s e) \<and>
           key s e = last (recency (map key_of ops)) \<and>
           exec_res D x s = Some r \<and> exec D x s = Some s' \<and>
           (if dirty (s_cache s e) \<and> fst (dev_write D e s) \<noteq> RES_OK
            then r = fst (dev_write D e s) \<and> io_log s' = io_log s @ [wb_try s e r] \<and>
                 cached_key s' (key s e)
            else io_log s' = io_log s @ (if dirty (s_cache s e) then [wb_event s e] else []) @
                               dev_reads x r \<and>
                 hash_lookup (fst (key s e)) (snd (key s e)) s' = Some None \<and>
                 (is_write x \<longrightarrow> r = RES_OK) \<and>
                 (r = RES_OK \<longrightarrow>
                    key s' e = key_of x \<and>
                    hash_lookup (fst (key_of x)) (snd (key_of x)) s' = Some (Some e) \<and>
                    list_all (cached_key s') (butlast (recency (map key_of ops)))))"
proof -
  let ?ks = "recency (map key_of ops)"
  have t0: "tracks None (block_cache_init (boot d)) []"
    using init_tracks[of "boot d"] by (simp add: boot_def)
  from acc have acc': "\<forall>y\<in>set ops. is_access y" by (simp add: list_all_iff)
  from tracks_run[OF t0 acc' ok] full run have t: "tracks None s ?ks" by simp
  from new have k: "key_of x \<notin> set ?ks" by (simp add: recency_distinct_set)
  from tracks_tail[OF t full] obtain e where tl: "s_lru_tail s = Some e"
    and ve: "valid (s_cache s e)" and kl: "key s e = last ?ks" by blast
  show ?thesis
  proof (cases "dirty (s_cache s e) \<and> fst (dev_write D e s) \<noteq> RES_OK")
    case True
    then have dd: "dirty (s_cache s e)" and bad: "fst (dev_write D e s) \<noteq> RES_OK" by simp_all
    from evict_fail_step[OF t full ax k tl dd bad] obtain s' where
      "exec_res D x s = Some (fst (dev_write D e s))" "exec D x s = Some s'"
      "io_log s' = io_log s @ [wb_try s e (fst (dev_write D e s))]"
      "hash_lookup (fst (key s e)) (snd (key s e)) s' = Some (Some e)"
      by blast
    with tl ve kl True show ?thesis
      by (intro exI[of _ e] exI[of _ "fst (dev_write D e s)"] exI[of _ s'])
         (auto simp: cached_key_def)
  next
    case False
    then have wb: "dirty (s_cache s e) \<Longrightarrow> fst (dev_write D e s) = RES_OK" by simp
    from evict_step[OF t full ax k tl wb] obtain r s' where
      "exec_res D x s = Some r" "exec D x s = Some s'"
      "io_log s' = io_log s @ (if dirty (s_cache s e) then [wb_event s e] else []) @ dev_reads x r"
      "hash_lookup (fst (key s e)) (snd (key s e)) s' = Some None"
      "is_write x \<longrightarrow> r = RES_OK"
      "r = RES_OK \<longrightarrow> key s' e = key_of x \<and>
         hash_lookup (fst (key_of x)) (snd (key_of x)) s' = Some (Some e) \<and>
         list_all (cached_key s') (butlast ?ks)"
      by blast
    with tl ve kl False show ?thesis
      by (intro exI[of _ e] exI[of _ r] exI[of _ s']) auto
  qed
qed

lemma fill_keys_ends: "hd fill_keys = (0, 0)" "fill_keys \<noteq> []" "last (rev fill_keys) = (0, 0)"
proof -
  show 1: "hd fill_keys = (0, 0)" by (simp add: fill_keys_def CACHE_SIZE_def upt_conv_Cons)
  show 2: "fill_keys \<noteq> []" by (simp add: fill_keys_def CACHE_SIZE_def)
  from 1 2 show "last (rev fill_keys) = (0, 0)" by (simp add: last_rev)
qed

lemma filled_facts:
  fixes D :: "unit drivers"
  shows "\<exists>t. run D (writes_of fill_keys blk0) (block_cache_init (boot ())) = Some t \<and>
           all_ok D (writes_of fill_keys blk0) (block_cache_init (boot ())) \<and>
           tracks None t (rev fill_keys) \<and> all_dirty t \<and> io_log t = []"
  using fill_writes[OF fill_keys_facts(1), of D blk0 "boot ()"] fill_keys_facts(2)
  by (auto simp: boot_def)

lemma ok_write_ok:
  "pdrv (s_cache s e) = 0 \<Longrightarrow> fst (dev_write ok_drivers e s) = RES_OK"
  by (simp add: dev_write_eq disk_write_no_cache_def ok_drivers_def DEV_SD_def)

theorem C8_lru_eviction_witness:
  "list_all is_access (writes_of fill_keys blk0) \<and> is_access (Write 0 128 blk1) \<and>
   run ok_drivers (writes_of fill_keys blk0) (block_cache_init (boot ())) = Some filled \<and>
   all_ok ok_drivers (writes_of fill_keys blk0) (block_cache_init (boot ())) \<and>
   length (recency (map key_of (writes_of fill_keys blk0))) = CACHE_SIZE \<and>
   key_of (Write 0 128 blk1) \<notin> set (map key_of (writes_of fill_keys blk0)) \<and>
   (\<exists>e s'. s_lru_tail filled = Some e \<and> key filled e = (0, 0) \<and> dirty (s_cache filled e) \<and>
      exec_res ok_drivers (Write 0 128 blk1) filled = Some RES_OK \<and>
      exec ok_drivers (Write 0 128 blk1) filled = Some s' \<and>
      io_log s' = [wb_event filled e] \<and>
      hash_lookup 0 0 s' = Some None \<and>
      hash_lookup 0 128 s' = Some (Some e) \<and>
      key s' e = (0, 128) \<and>
      list_all (cached_key s') (butlast (rev fill_keys)))"
proof -
  let ?ops = "writes_of fill_keys blk0"
  from filled_facts[of ok_drivers] obtain t where
    rt: "run ok_drivers ?ops (block_cache_init (boot ())) = Some t"
    and ok: "all_ok ok_drivers ?ops (block_cache_init (boot ()))"
    and tr: "tracks None t (rev fill_keys)" and ad: "all_dirty t" and io: "io_log t = []"
    by blast
  have ft: "filled = t" by (simp add: filled_def rt)
  have 1: "list_all is_access ?ops" using writes_of_access[of fill_keys blk0] by (simp add: list_all_iff)
  have 2: "is_access (Write 0 128 blk1)" by simp
  have 3: "run ok_drivers ?ops (block_cache_init (boot ())) = Some filled" by (simp add: ft rt)
  have rc: "recency (map key_of ?ops) = rev fill_keys"
    by (simp add: recency_distinct[OF fill_keys_facts(1)])
  have 5: "length (recency (map key_of ?ops)) = CACHE_SIZE"
    unfolding rc by (simp add: fill_keys_facts)
  have 6: "key_of (Write 0 128 blk1) \<notin> set (map key_of ?ops)" using fill_keys_facts(3) by simp
  from C8_lru_eviction[OF 1 2 3 ok 5 6] obtain e r s' where
    tl: "s_lru_tail filled = Some e" and ve: "valid (s_cache filled e)"
    and kl: "key filled e = last (recency (map key_of ?ops))"
    and er: "exec_res ok_drivers (Write 0 128 blk1) filled = Some r"
    and ex: "exec ok_drivers (Write 0 128 blk1) filled = Some s'"
    and cs: "if dirty (s_cache filled e) \<and> fst (dev_write ok_drivers e filled) \<noteq> RES_OK
            then r = fst (dev_write ok_drivers e filled) \<and> io_log s' = io_log filled @ [wb_try filled e r] \<and>
                 cached_key s' (key filled e)
            else io_log s' = io_log filled @ (if dirty (s_cache filled e) then [wb_event filled e] else []) @
                               dev_reads (Write 0 128 blk1) r \<and>
                 hash_lookup (fst (key filled e)) (snd (key filled e)) s' = Some None \<and>
                 (is_write (Write 0 128 blk1) \<longrightarrow> r = RES_OK) \<and>
                 (r = RES_OK \<longrightarrow>
                    key s' e = key_of (Write 0 128 blk1) \<and>
                    hash_lookup (fst (key_of (Write 0 128 blk1))) (snd (key_of (Write 0 128 blk1))) s' = Some (Some e) \<and>
                    list_all (cached_key s') (butlast (recency (map key_of ?ops))))"
    by blast
  have ke: "key filled e = (0, 0)" using kl by (simp only: rc fill_keys_ends)
  then have pe: "pdrv (s_cache filled e) = 0" by (simp add: key_def)
  from tracks_tail[OF tr] tl have ec: "e < CACHE_SIZE" by (auto simp: ft fill_keys_facts)
  have de: "dirty (s_cache filled e)" using ad ve ec by (simp add: all_dirty_def ft)
  have wo: "fst (dev_write ok_drivers e filled) = RES_OK" by (rule ok_write_ok[OF pe])
  from cs de wo have r: "r = RES_OK" by simp
  from cs de wo r have
    "io_log s' = io_log filled @ [wb_event filled e]"
    "hash_lookup (fst (key filled e)) (snd (key filled e)) s' = Some None"
    "key s' e = (0, 128)" "hash_lookup 0 128 s' = Some (Some e)"
    "list_all (cached_key s') (butlast (rev fill_keys))"
    by (simp_all add: recency_distinct[OF fill_keys_facts(1)])
  with tl ke de er ex r io have
    "\<exists>e s'. s_lru_tail filled = Some e \<and> key filled e = (0, 0) \<and> dirty (s_cache filled e) \<and>
      exec_res ok_drivers (Write 0 128 blk1) filled = Some RES_OK \<and>
      exec ok_drivers (Write 0 128 blk1) filled = Some s' \<and>
      io_log s' = [wb_event filled e] \<and>
      hash_lookup 0 0 s' = Some None \<and>
      hash_lookup 0 128 s' = Some (Some e) \<and>
      key s' e = (0, 128) \<and>
      list_all (cached_key s') (butlast (rev fill_keys))"
    by (intro exI[of _ e] exI[of _ s']) (simp add: ft)
  with 1 2 3 ok 5 6 show ?thesis by blast
qed

text \<open>
  The claim C8 as stated fails when the LRU tail cannot be written back. After
  \<open>block_cache_init\<close> and writes of the 128 blocks 0..127 of drive 0, on a device
  whose writes fail, \<open>block_cache_write_block(0, 128, blk1)\<close> finds the dirty LRU tail
  with key (0, 0), returns \<open>RES_ERROR\<close> after the one failed device write, and evicts
  nothing: (0, 0) is still cached and (0, 128) is not.
\<close>

theorem C8_counterexample:
  "\<exists>s e s'. run bad_drivers (writes_of fill_keys blk0) (block_cache_init (boot ())) = Some s \<and>
     all_ok bad_drivers (writes_of fill_keys blk0) (block_cache_init (boot ())) \<and>
     s_lru_tail s = Some e \<and> key s e = (0, 0) \<and> dirty (s_cache s e) \<and>
     exec_res bad_drivers (Write 0 128 blk1) s = Some RES_ERROR \<and>
     exec bad_drivers (Write 0 128 blk1) s = Some s' \<and>
     io_log s' = [wb_try s e RES_ERROR] \<and>
     cached_key s' (0, 0) \<and> hash_lookup 0 128 s' = Some None"
proof -
  let ?ops = "writes_of fill_keys blk0"
  from filled_facts[of bad_drivers] obtain t where
    rt: "run bad_drivers ?ops (block_cache_init (boot ())) = Some t"
    and ok: "all_ok bad_drivers ?ops (block_cache_init (boot ()))"
    and tr: "tracks None t (rev fill_keys)" and ad: "all_dirty t" and io: "io_log t = []"
    by blast
  have l: "length (rev fill_keys) = CACHE_SIZE" by (simp add: fill_keys_facts)
  from tracks_tail[OF tr l] obtain e where tl: "s_lru_tail t = Some e" and ec: "e < CACHE_SIZE"
    and ve: "valid (s_cache t e)" and ke: "key t e = (0, 0)"
    by (auto simp: fill_keys_ends)
  from ke have pe: "pdrv (s_cache t e) = 0" by (simp add: key_def)
  have de: "dirty (s_cache t e)" using ad ve ec by (simp add: all_dirty_def)
  have bw: "fst (dev_write bad_drivers e t) = RES_ERROR" by (rule bad_write_fails[OF pe])
  then have bad: "fst (dev_write bad_drivers e t) \<noteq> RES_OK" by simp
  have k: "key_of (Write 0 128 blk1) \<notin> set (rev fill_keys)" using fill_keys_facts(3) by simp
  from evict_fail_step[OF tr l _ k tl de bad] obtain s' where
    er: "exec_res bad_drivers (Write 0 128 blk1) t = Some (fst (dev_write bad_drivers e t))"
    and ex: "exec bad_drivers (Write 0 128 blk1) t = Some s'"
    and lg: "io_log s' = io_log t @ [wb_try t e (fst (dev_write bad_drivers e t))]"
    and hl: "hash_lookup (fst (key t e)) (snd (key t e)) s' = Some (Some e)"
    and t': "tracks None s' (rev fill_keys)"
    by auto
  have c0: "cached_key s' (0, 0)" using hl by (simp add: cached_key_def ke)
  have "(0, 128) \<notin> set (rev fill_keys)" using fill_keys_facts(3) by simp
  note mi = tracks_lookup_none[OF t' this]
  from rt ok tl ke de er ex lg c0 mi show ?thesis
    by (intro exI[of _ t] exI[of _ e] exI[of _ s']) (simp add: bw io)
qed

lemma hk_key: "hk s i = hash_key (fst (key s i)) (snd (key s i))"
  by (simp add: hk_def key_def)

lemma filled_to_no_match:
  assumes f: "filled_to q t ks" and l: "length ks \<le> CACHE_SIZE" and k: "(pd, sec) \<notin> set ks"
    and i: "i < CACHE_SIZE"
  shows "\<not> matches t pd sec i"
proof
  assume m: "matches t pd sec i"
  let ?n = "length ks"
  from f have g: "ginv q t (\<lambda>h. filter (\<lambda>i. hk t i = h) [CACHE_SIZE - ?n..<CACHE_SIZE])
        [CACHE_SIZE - ?n..<CACHE_SIZE] (rev [0..<CACHE_SIZE - ?n])"
    and ky: "\<forall>m<?n. valid (s_cache t (CACHE_SIZE - 1 - m)) \<and> key t (CACHE_SIZE - 1 - m) = ks ! m"
    by (simp_all add: filled_to_def)
  from m have "valid (s_cache t i)" by (simp add: matches_def)
  with ginvD(5)[OF g] i have "i \<in> set [CACHE_SIZE - ?n..<CACHE_SIZE]" by (simp add: vd_ok_def)
  then have lo: "CACHE_SIZE - ?n \<le> i" by simp
  let ?m = "CACHE_SIZE - 1 - i"
  from lo i l have mn: "?m < ?n" and im: "CACHE_SIZE - 1 - ?m = i" by auto
  from ky mn have "key t (CACHE_SIZE - 1 - ?m) = ks ! ?m" by blast
  with im have "key t i = ks ! ?m" by simp
  moreover from m have "key t i = (pd, sec)" by (simp add: matches_key)
  ultimately have "(pd, sec) \<in> set ks" using mn by (metis nth_mem)
  with k show False by simp
qed

lemma rev_upt_pred: "0 < a \<Longrightarrow> rev [0..<a] = (a - 1) # rev [0..<a - 1]"
  by (cases a) simp_all

lemma upt_pred: "0 < a \<Longrightarrow> a \<le> b \<Longrightarrow> [a - 1..<b] = (a - 1) # [a..<b]"
  by (cases a) (simp_all add: upt_conv_Cons)

lemma init_filled_to: "filled_to (s_free_head s) (block_cache_init s) []"
  using init_ginv[of s] by (simp add: filled_to_def)

lemma filled_to_step:
  fixes t :: "'d state"
  assumes f: "filled_to q t ks" and l: "length ks < CACHE_SIZE" and k: "(pd, sec) \<notin> set ks"
  shows "\<exists>t'. block_cache_write_block D pd sec buf t = Some (RES_OK, t') \<and>
           filled_to q t' (ks @ [(pd, sec)])"
proof -
  let ?n = "length ks"
  define f where "f = CACHE_SIZE - ?n - 1"
  let ?lru = "[CACHE_SIZE - ?n..<CACHE_SIZE]"
  let ?ch = "\<lambda>h. filter (\<lambda>i. hk t i = h) ?lru"
  from f have g: "ginv q t ?ch ?lru (rev [0..<CACHE_SIZE - ?n])"
    and ky: "\<forall>m<?n. valid (s_cache t (CACHE_SIZE - 1 - m)) \<and> key t (CACHE_SIZE - 1 - m) = ks ! m"
    by (simp_all add: filled_to_def)
  from l have pos: "0 < CACHE_SIZE - ?n" by simp
  have fl: "rev [0..<CACHE_SIZE - ?n] = f # rev [0..<f]"
    unfolding f_def by (rule rev_upt_pred[OF pos])
  note fg = free_get_ok[OF g[unfolded fl]]
  have nm: "\<not> matches t pd sec i" if "i < CACHE_SIZE" for i
    using filled_to_no_match[OF f _ k that] l by simp
  then have lk: "hash_lookup pd sec t = Some None" using lookup_none_iff[OF g] by blast
  have hd: "s_free_head t = Some f" using ginvD(3)[OF g] by (simp add: fl free_ok_def)
  let ?t1 = "t\<lparr>s_free_head := hash_next (s_cache t f)\<rparr>"
  let ?t' = "installed_w f pd sec buf ?t1"
  have nm1: "\<not> matches ?t1 pd sec i" if "i < CACHE_SIZE" for i
    using nm[OF that] by (simp add: matches_def)
  have g': "ginv q ?t' (?ch(hash_key pd sec := f # ?ch (hash_key pd sec))) (f # ?lru) (rev [0..<f])"
    by (rule installed_w_ginv[OF fg(2,3,4,5) nm1])
  have w: "block_cache_write_block D pd sec buf t = Some (RES_OK, ?t')"
    using write_block_free[OF lk hd, of D buf] by (simp add: installed_w_def)
  have ke: "key ?t' i = (if i = f then (pd, sec) else key t i)" for i
    by (simp add: installed_w_fields)
  have hke: "hk ?t' i = (if i = f then hash_key pd sec else hk t i)" for i
    unfolding hk_key[of ?t'] ke by (simp add: hk_key)
  have ve: "valid (s_cache ?t' i) = (i = f \<or> valid (s_cache t i))" for i
    by (simp add: installed_w_fields)
  have n': "length (ks @ [(pd, sec)]) = Suc ?n" by simp
  have c': "CACHE_SIZE - Suc ?n = f" by (simp add: f_def)
  have lru': "[f..<CACHE_SIZE] = f # ?lru"
    unfolding f_def by (rule upt_pred[OF pos]) simp
  have fnot: "f \<notin> set ?lru" using pos by (simp add: f_def)
  have ch': "(\<lambda>h. filter (\<lambda>i. hk ?t' i = h) (f # ?lru)) =
             ?ch(hash_key pd sec := f # ?ch (hash_key pd sec))"
  proof
    fix h
    have "filter (\<lambda>i. hk ?t' i = h) ?lru = filter (\<lambda>i. hk t i = h) ?lru"
    proof (rule filter_cong[OF refl])
      fix i assume "i \<in> set ?lru"
      with fnot have "i \<noteq> f" by blast
      then show "(hk ?t' i = h) = (hk t i = h)" by (simp only: hke) simp
    qed
    moreover have "hk ?t' f = hash_key pd sec" by (simp only: hke) simp
    ultimately show "filter (\<lambda>i. hk ?t' i = h) (f # ?lru) =
             (?ch(hash_key pd sec := f # ?ch (hash_key pd sec))) h"
      by (cases "h = hash_key pd sec") auto
  qed
  have last_f: "CACHE_SIZE - 1 - ?n = f" by (simp add: f_def)
  have "filled_to q ?t' (ks @ [(pd, sec)])"
    unfolding filled_to_def n' c' lru' ch'
  proof (intro conjI allI impI)
    show "ginv q ?t' (?ch(hash_key pd sec := f # ?ch (hash_key pd sec))) (f # ?lru) (rev [0..<f])"
      by (rule g')
  next
    fix m assume m: "m < Suc ?n"
    show "valid (s_cache ?t' (CACHE_SIZE - 1 - m))"
    proof (cases "m = ?n")
      case True
      then show ?thesis by (simp only: last_f ve) simp
    next
      case False
      with m ky have "valid (s_cache t (CACHE_SIZE - 1 - m))" by simp
      then show ?thesis by (simp only: ve) simp
    qed
    show "key ?t' (CACHE_SIZE - 1 - m) = (ks @ [(pd, sec)]) ! m"
    proof (cases "m = ?n")
      case True
      then show ?thesis by (simp only: last_f ke) simp
    next
      case False
      with m have mn: "m < ?n" by simp
      with l have "CACHE_SIZE - 1 - m \<noteq> f" by (simp add: f_def)
      with ky mn show ?thesis by (simp add: ke nth_append)
    qed
  qed
  with w show ?thesis by blast
qed

lemma precise_fill:
  fixes s :: "'d state"
  shows "distinct ks \<Longrightarrow> length ks \<le> CACHE_SIZE \<Longrightarrow>
         \<exists>t. run D (writes_of ks buf) (block_cache_init s) = Some t \<and>
             filled_to (s_free_head s) t ks"
proof (induction ks rule: rev_induct)
  case Nil
  then show ?case using init_filled_to[of s] by (simp add: writes_of_def)
next
  case (snoc k ks)
  obtain pd sec where k: "k = (pd, sec)" by (cases k)
  from snoc.prems have d: "distinct ks" and l: "length ks < CACHE_SIZE" and nk: "(pd, sec) \<notin> set ks"
    by (simp_all add: k)
  from snoc.IH[OF d] l obtain t where rt: "run D (writes_of ks buf) (block_cache_init s) = Some t"
    and ft: "filled_to (s_free_head s) t ks"
    by auto
  from filled_to_step[OF ft l nk, of D buf] obtain t' where
    w: "block_cache_write_block D pd sec buf t = Some (RES_OK, t')"
    and ft': "filled_to (s_free_head s) t' (ks @ [(pd, sec)])"
    by blast
  have "run D (writes_of (ks @ [k]) buf) (block_cache_init s) = Some t'"
    by (simp add: writes_of_snoc run_append k rt w)
  with ft' show ?case by (auto simp: k)
qed

lemma hash_key_bucket0:
  "hash_key 0 0 = 0" "hash_key 0 27 = 0" "hash_key 0 394 = 0" "hash_key 0 2000 = 111"
  by (simp_all add: hash_key_def HASH_SIZE_def)

lemma unat_of_nat_small: "n < 2000 \<Longrightarrow> unat (of_nat n :: LBA_t) = n"
  by (simp add: unat_of_nat)

lemma of_nat_neq_small:
  "n < 2000 \<Longrightarrow> m < 2001 \<Longrightarrow> n \<noteq> m \<Longrightarrow> (of_nat n :: LBA_t) \<noteq> of_nat m"
  by (simp add: word_of_nat_eq_iff take_bit_nat_eq_self)

lemma dup_keys_facts:
  "distinct dup_keys" "length dup_keys = CACHE_SIZE" "(0, 2000) \<notin> set dup_keys"
  "dup_keys ! 0 = (0, 0)" "dup_keys ! 1 = (0, 27)" "dup_keys ! 2 = (0, 394)"
proof -
  let ?f = "\<lambda>n. (0 :: BYTE, of_nat n :: LBA_t)"
  let ?r = "map ?f [1000..<1125]"
  have inj: "inj_on ?f (set [1000..<1125])"
  proof (rule inj_onI)
    fix a b assume "a \<in> set [1000..<1125]" "b \<in> set [1000..<1125]" "?f a = ?f b"
    then have "a < 2000" "b < 2001" "(of_nat a :: LBA_t) = of_nat b"
      by (simp_all del: upt_rec_numeral)
    with of_nat_neq_small[of a b] show "a = b" by blast
  qed
  have dr: "distinct ?r" using inj by (simp add: distinct_map del: upt_rec_numeral)
  have ne: "(0, of_nat m) \<notin> set ?r" if "m < 1000 \<or> m = 2000" for m
  proof
    assume "(0, of_nat m) \<in> set ?r"
    then obtain n where n: "1000 \<le> n" "n < 1125" and e: "(of_nat n :: LBA_t) = of_nat m"
      by (auto simp del: upt_rec_numeral)
    from n that have "n < 2000" "m < 2001" "n \<noteq> m" by auto
    from of_nat_neq_small[OF this] e show False by simp
  qed
  have n0: "(0, 0) \<notin> set ?r" "(0, 27) \<notin> set ?r" "(0, 394) \<notin> set ?r" "(0, 2000) \<notin> set ?r"
    using ne[of 0] ne[of 27] ne[of 394] ne[of 2000] by simp_all
  have d3: "distinct [(0 :: BYTE, 0 :: LBA_t), (0, 27), (0, 394)]" by simp
  have s3: "set [(0 :: BYTE, 0 :: LBA_t), (0, 27), (0, 394)] \<inter> set ?r = {}"
    using n0 by (simp del: upt_rec_numeral)
  show "distinct dup_keys"
    unfolding dup_keys_def distinct_append using d3 dr s3 by blast
  show "length dup_keys = CACHE_SIZE"
    by (simp add: dup_keys_def CACHE_SIZE_def del: upt_rec_numeral)
  have "(0 :: BYTE, 2000 :: LBA_t) \<notin> set [(0, 0), (0, 27), (0, 394)]" by simp
  with n0(4) show "(0, 2000) \<notin> set dup_keys"
    unfolding dup_keys_def set_append by blast
  show "dup_keys ! 0 = (0, 0)" "dup_keys ! 1 = (0, 27)" "dup_keys ! 2 = (0, 394)"
    by (simp_all add: dup_keys_def del: upt_rec_numeral)
qed

lemma filled_to_free_head:
  assumes f: "filled_to q t ks"
  shows "length ks < CACHE_SIZE \<Longrightarrow> s_free_head t = Some (CACHE_SIZE - length ks - 1)"
    and "length ks = CACHE_SIZE \<Longrightarrow> s_free_head t = q"
proof -
  from f have g: "ginv q t (\<lambda>h. filter (\<lambda>i. hk t i = h) [CACHE_SIZE - length ks..<CACHE_SIZE])
        [CACHE_SIZE - length ks..<CACHE_SIZE] (rev [0..<CACHE_SIZE - length ks])"
    by (simp add: filled_to_def)
  note fo = ginvD(3)[OF g]
  show "s_free_head t = Some (CACHE_SIZE - length ks - 1)" if "length ks < CACHE_SIZE"
  proof -
    from that have "0 < CACHE_SIZE - length ks" by simp
    from fo[unfolded rev_upt_pred[OF this]] show ?thesis by (simp add: free_ok_def)
  qed
  show "s_free_head t = q" if "length ks = CACHE_SIZE"
    using fo that by (simp add: free_ok_def)
qed

lemma upt_128_split: "[0..<CACHE_SIZE] = [0..<125] @ [125, 126, 127]"
proof -
  have e: "(125 :: nat) + 3 = 128" by simp
  have "[0..<125 + 3] = [0..<125] @ [125..<125 + 3]" by (rule upt_add_eq_append) simp
  then have "[0..<128] = [0..<125] @ [125..<128]" unfolding e .
  moreover have "[125..<128] = [125, 126, 127]" by (simp add: upt_conv_Cons)
  ultimately show ?thesis unfolding CACHE_SIZE_def by (simp only:)
qed

text \<open>
  The cache is full and the free list does not end: its head is entry 125, which is
  cached. A write of a new key takes entry 125, and the entries 126 and 127 behind it
  on the chain of bucket 0 leave that chain; a write of the key of entry 127 then
  misses and takes entry 126.
\<close>

lemma reuse_cached_entries:
  fixes u :: "'d state"
  assumes f: "filled_to (Some 125) u dup_keys"
  shows "\<exists>v w. block_cache_write_block D 0 2000 buf u = Some (RES_OK, v) \<and>
           block_cache_write_block D 0 0 buf v = Some (RES_OK, w) \<and>
           valid (s_cache w 126) \<and> valid (s_cache w 127) \<and>
           key w 126 = (0, 0) \<and> key w 127 = (0, 0)"
proof -
  note dk = dup_keys_facts
  let ?ch = "\<lambda>h. filter (\<lambda>i. hk u i = h) [0..<CACHE_SIZE]"
  from f have g: "ginv (Some 125) u ?ch [0..<CACHE_SIZE] []"
    and ky: "\<forall>m<CACHE_SIZE. valid (s_cache u (CACHE_SIZE - 1 - m)) \<and>
                key u (CACHE_SIZE - 1 - m) = dup_keys ! m"
    by (simp_all add: filled_to_def dk(2))
  have slot: "valid (s_cache u i) \<and> key u i = dup_keys ! (127 - i)" if "i < 128" for i
  proof -
    from that have "127 - i < CACHE_SIZE" "CACHE_SIZE - 1 - (127 - i) = i"
      by (simp_all add: CACHE_SIZE_def)
    with ky show ?thesis by metis
  qed
  have k127: "key u 127 = (0, 0)" and k126: "key u 126 = (0, 27)" and k125: "key u 125 = (0, 394)"
    using slot[of 127] slot[of 126] slot[of 125] dk(5) by (simp_all add: dk)
  have v127: "valid (s_cache u 127)" using slot[of 127] by simp
  have h0: "hk u 125 = 0" "hk u 126 = 0" "hk u 127 = 0"
    by (simp_all add: hk_key k125 k126 k127 hash_key_bucket0)
  let ?pre = "filter (\<lambda>i. hk u i = 0) [0..<125]"
  let ?c = "?ch 111"
  have c0: "?ch 0 = ?pre @ [125, 126, 127]"
    by (simp only: upt_128_split filter_append) (simp add: h0)
  have fh: "s_free_head u = Some 125" by (rule filled_to_free_head(2)[OF f dk(2)])
  note ho = ginvD(1)[OF g]
  have s0: "seg (HN u) (s_hash_table u 0) (?pre @ [125, 126, 127]) None"
    using hash_okD[OF ho, of 0] by (simp only: c0) (simp add: HASH_SIZE_def)
  then have sp: "seg (HN u) (s_hash_table u 0) ?pre (Some 125)" and n125: "HN u 125 = Some 126"
    by (auto simp: seg_append)
  have s111: "seg (HN u) (s_hash_table u 111) ?c None"
    using hash_okD[OF ho, of 111] by (simp add: HASH_SIZE_def)
  have p125: "125 \<notin> set ?pre" by simp
  have c125: "125 \<notin> set ?c" "127 \<notin> set ?c" by (simp_all add: h0)
  have cb: "i < 128" if "i \<in> set ?c" for i using that by (simp add: CACHE_SIZE_def)
  text \<open>the write of block 2000\<close>
  have nm: "\<not> matches u 0 2000 i" if "i < CACHE_SIZE" for i
    by (rule filled_to_no_match[OF f _ dk(3) that]) (simp add: dk)
  then have lk: "hash_lookup 0 2000 u = Some None" using lookup_none_iff[OF g] by blast
  let ?u1 = "u\<lparr>s_free_head := hash_next (s_cache u 125)\<rparr>"
  let ?v = "installed_w 125 0 2000 buf ?u1"
  have w1: "block_cache_write_block D 0 2000 buf u = Some (RES_OK, ?v)"
    using write_block_free[OF lk fh, of D buf] by (simp add: installed_w_def)
  have fv: "s_free_head ?v = Some 126"
    using n125 by (simp add: installed_w_fields HN_def)
  have hv: "HN ?v = (HN u)(125 := s_hash_table u 111)"
    by (simp add: HN_def fun_eq_iff installed_w_fields hash_key_bucket0)
  have tv: "s_hash_table ?v 0 = s_hash_table u 0"
    by (simp add: installed_w_fields hash_key_bucket0)
  have kv: "key ?v i = (if i = 125 then (0, 2000) else key u i)" for i
    by (simp add: installed_w_fields)
  have vv: "valid (s_cache ?v i) = (i = 125 \<or> valid (s_cache u i))" for i
    by (simp add: installed_w_fields)
  have sv: "seg (HN ?v) (s_hash_table ?v 0) (?pre @ [125] @ ?c) None"
    unfolding hv tv seg_append
  proof (intro exI conjI)
    show "seg ((HN u)(125 := s_hash_table u 111)) (s_hash_table u 0) ?pre (Some 125)"
      using sp by (simp only: seg_upd[OF p125])
    show "seg ((HN u)(125 := s_hash_table u 111)) (Some 125) [125] (s_hash_table u 111)"
      by simp
    show "seg ((HN u)(125 := s_hash_table u 111)) (s_hash_table u 111) ?c None"
      using s111 by (simp only: seg_upd[OF c125(1)])
  qed
  have nmv: "\<not> matches ?v 0 0 i" if i: "i \<in> set (?pre @ [125] @ ?c)" for i
  proof
    assume m: "matches ?v 0 0 i"
    from i c125(2) cb have ib: "i < 128" "i \<noteq> 127" by auto
    from m have ki: "key ?v i = (0, 0)" by (simp add: matches_key)
    show False
    proof (cases "i = 125")
      case True
      with ki show False by (simp add: kv)
    next
      case False
      with ki have "key u i = (0, 0)" by (simp add: kv)
      with slot[OF ib(1)] dk(4) have "dup_keys ! (127 - i) = dup_keys ! 0" by simp
      moreover have "127 - i < length dup_keys" "0 < length dup_keys"
        by (simp_all add: dk CACHE_SIZE_def)
      ultimately have "127 - i = 0" using dk(1) by (simp add: nth_eq_iff_index_eq)
      with ib show False by simp
    qed
  qed
  have lv: "hash_lookup 0 0 ?v = Some None"
  proof -
    have "find (matches ?v 0 0) (?pre @ [125] @ ?c) = None"
      unfolding find_None_iff using nmv by blast
    with hash_lookup_loop_seg[OF sv, of 0 0] show ?thesis
      by (simp add: hash_lookup_def hash_key_bucket0)
  qed
  text \<open>the write of block 0\<close>
  let ?v1 = "?v\<lparr>s_free_head := hash_next (s_cache ?v 126)\<rparr>"
  let ?w = "installed_w 126 0 0 buf ?v1"
  have w2: "block_cache_write_block D 0 0 buf ?v = Some (RES_OK, ?w)"
    using write_block_free[OF lv fv, of D buf] by (simp add: installed_w_def)
  have "valid (s_cache ?w 126)" "key ?w 126 = (0, 0)"
    by (simp_all add: installed_w_fields[of 126])
  moreover have "valid (s_cache ?w 127)"
    using v127 by (simp add: installed_w_fields)
  moreover have "key ?w 127 = (0, 0)"
    using k127 by (simp add: installed_w_fields)
  ultimately show ?thesis using w1 w2 by blast
qed

lemma run_Init: "run D ([Init] @ xs) s = run D xs (block_cache_init s)"
  by simp

text \<open>
  C1: where the code departs from it. \<open>block_cache_init\<close> does not reset
  \<open>s_free_head\<close>. Called a second time, after two writes have left entry 125 at the
  head of the free list, it builds a free list 127, ..., 0 whose last entry points
  back to entry 125. After 128 writes of different keys (the first three, blocks 0, 27
  and 394 of drive 0, in the entries 127, 126 and 125 and on the chain of bucket 0) the
  free list is not empty: its head is the cached entry 125. The write of block 2000
  takes entry 125 and cuts the entries 126 and 127 off their chain; the write of
  block 0 then misses, although entry 127 caches block 0, and takes entry 126. In the
  state reached the entries 126 and 127 are both valid for drive 0, block 0.
\<close>

theorem C1_second_init_duplicates:
  "\<exists>s. run ok_drivers twice_ops (boot ()) = Some s \<and>
       valid (s_cache s 126) \<and> valid (s_cache s 127) \<and>
       pdrv (s_cache s 126) = 0 \<and> sector (s_cache s 126) = 0 \<and>
       pdrv (s_cache s 127) = 0 \<and> sector (s_cache s 127) = 0"
proof -
  let ?A = "writes_of [(0, 5), (0, 6)] blk0"
  let ?B = "writes_of dup_keys blk0"
  have d2: "distinct [(0 :: BYTE, 5 :: LBA_t), (0, 6)]" by simp
  from precise_fill[OF d2, of ok_drivers blk0 "boot ()"] obtain t where
    rt: "run ok_drivers ?A (block_cache_init (boot ())) = Some t"
    and ft: "filled_to None t [(0, 5), (0, 6)]"
    by (auto simp: CACHE_SIZE_def boot_def)
  have ht: "s_free_head t = Some 125"
    using filled_to_free_head(1)[OF ft] by (simp add: CACHE_SIZE_def)
  from precise_fill[OF dup_keys_facts(1), of ok_drivers blk0 t] obtain u where
    ru: "run ok_drivers ?B (block_cache_init t) = Some u"
    and fu: "filled_to (Some 125) u dup_keys"
    by (auto simp: dup_keys_facts(2) ht)
  from reuse_cached_entries[OF fu, of ok_drivers blk0] obtain v w where
    w1: "block_cache_write_block ok_drivers 0 2000 blk0 u = Some (RES_OK, v)"
    and w2: "block_cache_write_block ok_drivers 0 0 blk0 v = Some (RES_OK, w)"
    and dup: "valid (s_cache w 126)" "valid (s_cache w 127)" "key w 126 = (0, 0)" "key w 127 = (0, 0)"
    by blast
  have "run ok_drivers twice_ops (boot ()) =
          run ok_drivers (?A @ ([Init] @ (?B @ [Write 0 2000 blk0, Write 0 0 blk0])))
            (block_cache_init (boot ()))"
    unfolding twice_ops_def by (rule run_Init)
  also have "\<dots> = run ok_drivers ([Init] @ (?B @ [Write 0 2000 blk0, Write 0 0 blk0])) t"
    by (simp only: run_append[of _ ?A] rt option.case)
  also have "\<dots> = run ok_drivers (?B @ [Write 0 2000 blk0, Write 0 0 blk0]) (block_cache_init t)"
    by (rule run_Init)
  also have "\<dots> = run ok_drivers [Write 0 2000 blk0, Write 0 0 blk0] u"
    by (simp only: run_append[of _ ?B] ru option.case)
  also have "\<dots> = Some w" by (simp add: w1 w2)
  finally have "run ok_drivers twice_ops (boot ()) = Some w" .
  with dup show ?thesis by (auto simp: key_def)
qed

end
